theory Spec2Isabelle
  imports Main "HOL-Library.Word" "HOL-Library.List_Lexorder"
begin

unbundle bit_operations_syntax

section \<open>Go values\<close>

text \<open>
  A Go \<open>[]byte\<close> is a list of 8-bit words, ordered bytewise (the lexicographic order on
  lists, which is the order \<open>bytes.Compare\<close> computes).  \<open>int64\<close> and \<open>int32\<close> are
  64- and 32-bit words read in two's complement: comparisons on them are the signed ones
  (\<open><=s\<close>, \<open><s\<close>), arithmetic wraps around.  A Go string is a list of 8-bit characters.
\<close>

type_synonym byte = "8 word"
type_synonym bytes = "byte list"
type_synonym int64 = "64 word"
type_synonym uint64 = "64 word"
type_synonym int32 = "32 word"

subsection \<open>Errors\<close>

text \<open>
  An error value of \<open>github.com/juju/errors\<close>: \<open>errors.New\<close> makes an error from its
  message, \<open>errors.Trace\<close> wraps a non-nil error with the location of the call and keeps
  its message; \<open>errors.Trace(nil)\<close> is nil.  A Go value of type \<open>error\<close> that may be nil is
  an \<open>error option\<close>.
\<close>

datatype error = New string | Traced error

fun Error :: "error \<Rightarrow> string" where
  "Error (New msg) = msg"
| "Error (Traced err) = Error err"

fun Trace :: "error option \<Rightarrow> error option" where
  "Trace None = None"
| "Trace (Some err) = Some (Traced err)"

section \<open>The key codec\<close>

text \<open>
  \<open>codec.EncodeInt\<close> and \<open>codec.DecodeInt\<close> of \<open>github.com/pingcap/tidb/util/codec\<close>, the
  library that \<open>server.go\<close> imports: an \<open>int64\<close> is written as the 8 bytes, most
  significant first (\<open>binary.BigEndian\<close>), of the value with its sign bit flipped, so that
  the bytewise order of the encodings is the signed order of the integers.  \<open>DecodeInt\<close>
  reads the first 8 bytes back, returns the remaining bytes with the integer, and fails on
  fewer than 8 bytes.
\<close>

definition signMask :: uint64 where
  "signMask = 0x8000000000000000"

definition EncodeIntToCmpUint :: "int64 \<Rightarrow> uint64" where
  "EncodeIntToCmpUint v = v XOR signMask"

definition DecodeCmpUintToInt :: "uint64 \<Rightarrow> int64" where
  "DecodeCmpUintToInt u = u XOR signMask"

definition PutUint64 :: "uint64 \<Rightarrow> bytes" where
  "PutUint64 v =
     [ucast (drop_bit 56 v), ucast (drop_bit 48 v), ucast (drop_bit 40 v),
      ucast (drop_bit 32 v), ucast (drop_bit 24 v), ucast (drop_bit 16 v),
      ucast (drop_bit 8 v), ucast v]"

fun Uint64 :: "bytes \<Rightarrow> uint64" where
  "Uint64 (b0 # b1 # b2 # b3 # b4 # b5 # b6 # b7 # _) =
     ucast b7 OR push_bit 8 (ucast b6) OR push_bit 16 (ucast b5) OR
     push_bit 24 (ucast b4) OR push_bit 32 (ucast b3) OR push_bit 40 (ucast b2) OR
     push_bit 48 (ucast b1) OR push_bit 56 (ucast b0)"
| "Uint64 _ = 0"

definition EncodeInt :: "bytes \<Rightarrow> int64 \<Rightarrow> bytes" where
  "EncodeInt b v = b @ PutUint64 (EncodeIntToCmpUint v)"

definition DecodeInt :: "bytes \<Rightarrow> error + (bytes \<times> int64)" where
  "DecodeInt b =
     (if length b < 8 then Inl (New ''insufficient bytes to decode value'')
      else Inr (drop 8 b, DecodeCmpUintToInt (Uint64 (take 8 b))))"

section \<open>The store and the window\<close>

text \<open>
  Modelled from the spec: the Store (package \<open>pkg/store\<close>, opened by
  \<open>store.NewBoltStore\<close>) is not among the sources.  The spec describes it as a persistent,
  namespaced, ordered byte-key store whose scan starts at a given key, hands the records to
  a callback in increasing key order, and lets the callback signal continue or stop; a store
  failure is fatal to the scan in progress.  A namespace holds a finite collection of
  records (key, value); \<open>Seek\<close> is the sequence a scan presents, the records whose key is
  at or after the start key, in increasing key order.  The scan ends at the end of the
  sequence, when the callback returns false, or when the callback returns an error, which
  the scan returns.  A scan of a namespace the store does not hold fails.  A scan reads:
  it leaves the records as they are.  The field \<open>scanned\<close> records the scans the store
  has served (namespace and start key), so that reading the store is an observable effect.
\<close>

type_synonym namespace = string
type_synonym record_kv = "bytes \<times> bytes"

record Store =
  buckets :: "namespace \<rightharpoonup> record_kv list"
  scanned :: "(namespace \<times> bytes) list"

definition NotFound :: "namespace \<Rightarrow> error" where
  "NotFound ns = New (''bucket '' @ ns @ '' not found'')"

definition Seek :: "record_kv list \<Rightarrow> bytes \<Rightarrow> record_kv list" where
  "Seek b startKey = sort_key fst (filter (\<lambda>(k, v). startKey \<le> k) b)"

fun Scan_records ::
  "(bytes \<Rightarrow> bytes \<Rightarrow> 's \<Rightarrow> 's \<times> bool \<times> error option) \<Rightarrow> record_kv list \<Rightarrow> 's
     \<Rightarrow> 's \<times> error option" where
  "Scan_records f [] s = (s, None)"
| "Scan_records f ((ck, cv) # rest) s =
     (case f ck cv s of
        (s', valid, Some err) \<Rightarrow> (s', Some err)
      | (s', valid, None) \<Rightarrow> if \<not> valid then (s', None) else Scan_records f rest s')"

definition Scan ::
  "Store \<Rightarrow> namespace \<Rightarrow> bytes \<Rightarrow> (bytes \<Rightarrow> bytes \<Rightarrow> 's \<Rightarrow> 's \<times> bool \<times> error option) \<Rightarrow> 's
     \<Rightarrow> Store \<times> 's \<times> error option" where
  "Scan st ns startKey f s =
     (let st' = st\<lparr>scanned := scanned st @ [(ns, startKey)]\<rparr>
      in case buckets st ns of
           None \<Rightarrow> (st', s, Some (NotFound ns))
         | Some b \<Rightarrow> (case Scan_records f (Seek b startKey) s of (s', err) \<Rightarrow> (st', s', err)))"

text \<open>
  Modelled from the spec: the Window (type \<open>DepositWindow\<close>, built by
  \<open>NewDepositWindow\<close>) is not among the sources.  The spec gives it the two bounds
  \<open>lower\<close> and \<open>upper\<close> and the read \<open>loadLower() -> int64\<close>.
\<close>

record DepositWindow =
  upper :: int64
  lower :: int64

definition LoadLower :: "DepositWindow \<Rightarrow> int64" where
  "LoadLower w = lower w"

section \<open>The range query: \<open>DumpBinlog\<close>\<close>

text \<open>
  The request and the response of the RPC (package \<open>go-binlog\<close>), with the fields
  \<open>DumpBinlog\<close> reads and writes.  A fresh response \<open>&binlog.DumpBinlogResp{}\<close> holds the
  zero values.
\<close>

record DumpBinlogReq =
  BeginCommitTS :: int64
  Limit :: int32

record DumpBinlogResp =
  EndCommitTS :: int64
  Payloads :: "bytes list"
  Errmsg :: string

definition new_DumpBinlogResp :: DumpBinlogResp where
  "new_DumpBinlogResp = \<lparr>EndCommitTS = 0, Payloads = [], Errmsg = ''''\<rparr>"

text \<open>
  The fields of \<open>Server\<close> that \<open>DumpBinlog\<close> touches.  The namespace it scans is the
  package variable \<open>BinlogNamespace\<close>, passed here as an argument.
\<close>

record Server =
  boltdb :: Store
  window :: DepositWindow

text \<open>
  The variables the scan callback captures and assigns: the response \<open>ret\<close> and the
  remaining \<open>limit\<close>.  It only reads \<open>start\<close> and \<open>end\<close> (here \<open>endTS\<close>).
\<close>

record scan_vars =
  ret :: DumpBinlogResp
  limit :: int32

text \<open>
  The callback handed to \<open>Scan\<close> (lines 97 to 125 of \<open>server.go\<close>).  \<open>decodePayload\<close>
  is a function of this package that is not among the sources; it is a parameter, giving
  the payload or an error (its second result is discarded by the caller).
\<close>

definition scan_fn ::
  "(bytes \<Rightarrow> error + bytes) \<Rightarrow> int64 \<Rightarrow> int64 \<Rightarrow> bytes \<Rightarrow> bytes \<Rightarrow> scan_vars
     \<Rightarrow> scan_vars \<times> bool \<times> error option" where
  "scan_fn decodePayload start endTS key val s =
     (if limit s <=s 0 then (s, False, None)
      else case DecodeInt key of
        Inl err \<Rightarrow> (s, False, Trace (Some err))
      | Inr (_, cts) \<Rightarrow>
          if cts = start then (s, True, None)
          else if endTS <=s cts then (s, False, None)
          else case decodePayload val of
            Inl err \<Rightarrow> (s, False, Trace (Some err))
          | Inr payload \<Rightarrow>
              (s\<lparr>ret := (ret s)\<lparr>Payloads := Payloads (ret s) @ [payload], EndCommitTS := cts\<rparr>,
                 limit := limit s - 1\<rparr>,
               True, None))"

text \<open>The call of \<open>s.boltdb.Scan\<close> inside \<open>DumpBinlog\<close>, with what it leaves in the captured variables.\<close>

definition DumpBinlog_scan ::
  "(bytes \<Rightarrow> error + bytes) \<Rightarrow> namespace \<Rightarrow> Server \<Rightarrow> DumpBinlogReq
     \<Rightarrow> Store \<times> scan_vars \<times> error option" where
  "DumpBinlog_scan decodePayload BinlogNamespace s req =
     (let start = BeginCommitTS req;
          startKey = EncodeInt [] start;
          endTS = LoadLower (window s)
      in Scan (boltdb s) BinlogNamespace startKey (scan_fn decodePayload start endTS)
           \<lparr>ret = new_DumpBinlogResp, limit = Limit req\<rparr>)"

text \<open>
  \<open>DumpBinlog\<close> returns the response and the error; the server is returned too, so that
  what the call does to it can be stated.
\<close>

definition DumpBinlog ::
  "(bytes \<Rightarrow> error + bytes) \<Rightarrow> namespace \<Rightarrow> Server \<Rightarrow> DumpBinlogReq
     \<Rightarrow> Server \<times> DumpBinlogResp \<times> error option" where
  "DumpBinlog decodePayload BinlogNamespace s req =
     (case DumpBinlog_scan decodePayload BinlogNamespace s req of
        (boltdb', vars, err) \<Rightarrow>
          (s\<lparr>boltdb := boltdb'\<rparr>,
           (case err of None \<Rightarrow> ret vars | Some e \<Rightarrow> (ret vars)\<lparr>Errmsg := Error e\<rparr>),
           Trace err))"

text \<open>
  For stating which entries a response holds: the commit timestamp a key decodes to and the
  payload a value decodes to (with a default where decoding fails), and the entries of a
  scanned sequence other than the one at \<open>start\<close>.
\<close>

definition key_commitTS :: "bytes \<Rightarrow> int64" where
  "key_commitTS key = (case DecodeInt key of Inl _ \<Rightarrow> 0 | Inr (_, cts) \<Rightarrow> cts)"

definition val_payload :: "(bytes \<Rightarrow> error + bytes) \<Rightarrow> bytes \<Rightarrow> bytes" where
  "val_payload decodePayload val = (case decodePayload val of Inl _ \<Rightarrow> [] | Inr payload \<Rightarrow> payload)"

definition after_start :: "int64 \<Rightarrow> record_kv list \<Rightarrow> record_kv list" where
  "after_start start recs = filter (\<lambda>(k, v). key_commitTS k \<noteq> start) recs"

text \<open>
  What a run of the callback over the records \<open>vis\<close> that it passed over leaves in the
  captured variables, from \<open>s\<close> to \<open>s'\<close>.
\<close>

definition scan_result ::
  "(bytes \<Rightarrow> error + bytes) \<Rightarrow> int64 \<Rightarrow> int64 \<Rightarrow> scan_vars \<Rightarrow> record_kv list \<Rightarrow> scan_vars \<Rightarrow> bool" where
  "scan_result dp start endTS s vis s' =
     (let es = after_start start vis in
        list_all (\<lambda>(k, v). DecodeInt k = Inr (drop 8 k, key_commitTS k)) vis \<and>
        list_all (\<lambda>(k, v). key_commitTS k <s endTS \<and> dp v = Inr (val_payload dp v)) es \<and>
        Payloads (ret s') = Payloads (ret s) @ map (\<lambda>(k, v). val_payload dp v) es \<and>
        EndCommitTS (ret s') =
          (if es = [] then EndCommitTS (ret s) else key_commitTS (fst (last es))) \<and>
        Errmsg (ret s') = Errmsg (ret s) \<and>
        limit s' = limit s - of_nat (length es) \<and>
        int (length es) \<le> max 0 (sint (limit s)))"

text \<open>The number a byte sequence denotes, most significant byte first.\<close>

fun be_nat :: "bytes \<Rightarrow> nat" where
  "be_nat [] = 0"
| "be_nat (b # bs) = unat b * 256 ^ length bs + be_nat bs"

definition be_word :: "bytes \<Rightarrow> uint64" where
  "be_word bs = foldl (\<lambda>x b. push_bit 8 x OR ucast b) 0 bs"

section \<open>The namespaces of the store: \<open>NewServer\<close>\<close>

text \<open>
  \<open>NewServer\<close> first assigns the three package variables from the configuration (lines 45
  to 47 of \<open>server.go\<close>).  The type \<open>Config\<close> is declared outside the sources: the type of
  \<open>ClusterID\<close> is a type parameter, and the text that \<open>fmt.Sprintf\<close> writes for the verb
  \<open>%d\<close> at that type is the parameter \<open>fmt_d\<close>.  The other fields are those \<open>NewServer\<close>
  reads.
\<close>

record 'id Config =
  ClusterID :: 'id
  DataDir :: string
  ListenAddr :: string
  MetricsAddr :: string
  MetricsInterval :: int

record Namespaces =
  WindowNamespace :: namespace
  BinlogNamespace :: namespace
  SavePointNamespace :: namespace

definition NewServer_namespaces :: "('id \<Rightarrow> string) \<Rightarrow> 'id Config \<Rightarrow> Namespaces" where
  "NewServer_namespaces fmt_d cfg =
     \<lparr>WindowNamespace = ''meta_'' @ fmt_d (ClusterID cfg),
      BinlogNamespace = ''binlog_'' @ fmt_d (ClusterID cfg),
      SavePointNamespace = ''savepoint_'' @ fmt_d (ClusterID cfg)\<rparr>"

text \<open>The decimal digits of a natural number, as \<open>%d\<close> writes an unsigned integer.\<close>

fun decimal :: "nat \<Rightarrow> string" where
  "decimal n =
     (if n < 10 then [''0123456789'' ! n]
      else decimal (n div 10) @ [''0123456789'' ! (n mod 10)])"

section \<open>The life cycle of the server: \<open>Start\<close> and \<open>Close\<close>\<close>

text \<open>
  The part of the server that starting and closing act on: whether the gRPC server \<open>gs\<close>
  serves requests, whether \<open>cancel\<close> has been called on the shared context, the counter
  of the wait group \<open>wg\<close>, the goroutines that were started and have not returned, whether
  the store is open, and whether \<open>metrics\<close> is set (not nil).
\<close>

datatype goroutine = Collector | Publisher | Metrics

record Lifecycle =
  serving :: bool
  cancelled :: bool
  wg :: nat
  running :: "goroutine list"
  store_open :: bool
  metrics_set :: bool

text \<open>
  \<open>StartCollect\<close>, \<open>StartPublish\<close> and \<open>StartMetrics\<close> add one to the wait group and start
  a goroutine; \<open>StartMetrics\<close> does nothing when \<open>metrics\<close> is nil.  The goroutine runs a
  function with a deferred \<open>wg.Done()\<close>: when it returns, the counter goes down by one
  (\<open>goroutine_returns\<close>).
\<close>

definition StartCollect :: "Lifecycle \<Rightarrow> Lifecycle" where
  "StartCollect s = s\<lparr>wg := wg s + 1, running := running s @ [Collector]\<rparr>"

definition StartPublish :: "Lifecycle \<Rightarrow> Lifecycle" where
  "StartPublish s = s\<lparr>wg := wg s + 1, running := running s @ [Publisher]\<rparr>"

definition StartMetrics :: "Lifecycle \<Rightarrow> Lifecycle" where
  "StartMetrics s =
     (if \<not> metrics_set s then s
      else s\<lparr>wg := wg s + 1, running := running s @ [Metrics]\<rparr>)"

definition goroutine_returns :: "goroutine \<Rightarrow> Lifecycle \<Rightarrow> Lifecycle" where
  "goroutine_returns g s = s\<lparr>wg := wg s - 1, running := remove1 g (running s)\<rparr>"

text \<open>
  \<open>Start\<close> starts the three goroutines and then, when the listener could be opened,
  serves requests.  \<open>new_Lifecycle\<close> is the server as \<open>NewServer\<close> returns it.
\<close>

definition new_Lifecycle :: "bool \<Rightarrow> Lifecycle" where
  "new_Lifecycle has_metrics =
     \<lparr>serving = False, cancelled = False, wg = 0, running = [], store_open = True,
      metrics_set = has_metrics\<rparr>"

definition Start :: "bool \<Rightarrow> Lifecycle \<Rightarrow> Lifecycle" where
  "Start listening s =
     (let s1 = StartCollect s; s2 = StartPublish s1; s3 = StartMetrics s2
      in if listening then s3\<lparr>serving := True\<rparr> else s3)"

text \<open>
  \<open>Close\<close> is the sequence of its four statements.  Each is one step of the caller:
  \<open>s.gs.GracefulStop()\<close> stops serving, \<open>s.cancel()\<close> raises the cancellation,
  \<open>s.wg.Wait()\<close> returns only when the counter is zero (it blocks otherwise, which is
  \<open>None\<close>: the step cannot be taken), \<open>s.boltdb.Close()\<close> closes the store.
\<close>

datatype close_stmt = GracefulStop | Cancel | Wait | BoltdbClose

definition Close :: "close_stmt list" where
  "Close = [GracefulStop, Cancel, Wait, BoltdbClose]"

fun exec_stmt :: "close_stmt \<Rightarrow> Lifecycle \<Rightarrow> Lifecycle option" where
  "exec_stmt GracefulStop s = Some (s\<lparr>serving := False\<rparr>)"
| "exec_stmt Cancel s = Some (s\<lparr>cancelled := True\<rparr>)"
| "exec_stmt Wait s = (if wg s = 0 then Some s else None)"
| "exec_stmt BoltdbClose s = Some (s\<lparr>store_open := False\<rparr>)"

text \<open>
  An execution of \<open>Close\<close> next to the goroutines is a sequence of events: the caller of
  \<open>Close\<close> takes its next statement (\<open>Step\<close>), or a running goroutine returns
  (\<open>Return\<close>).  A configuration is the statements of \<open>Close\<close> still to run and the state;
  \<open>run\<close> gives the configuration after the events, or \<open>None\<close> when some event cannot
  happen where it stands (a \<open>Wait\<close> with a positive counter, a goroutine that is not
  running, a step after the last statement).
\<close>

datatype event = Step | Return goroutine

fun run :: "event list \<Rightarrow> close_stmt list \<times> Lifecycle \<Rightarrow> (close_stmt list \<times> Lifecycle) option" where
  "run [] c = Some c"
| "run (Step # es) ([], s) = None"
| "run (Step # es) (st # rest, s) =
     (case exec_stmt st s of None \<Rightarrow> None | Some s' \<Rightarrow> run es (rest, s'))"
| "run (Return g # es) (pc, s) =
     (if g \<in> set (running s) then run es (pc, goroutine_returns g s) else None)"

text \<open>What holds of a configuration reached while \<open>Close\<close> runs on a started server.\<close>

definition close_inv :: "close_stmt list \<times> Lifecycle \<Rightarrow> bool" where
  "close_inv c =
     (case c of (pc, s) \<Rightarrow>
        wg s = length (running s) \<and>
        (pc = [GracefulStop, Cancel, Wait, BoltdbClose] \<and> store_open s \<or>
         pc = [Cancel, Wait, BoltdbClose] \<and> \<not> serving s \<and> store_open s \<or>
         pc = [Wait, BoltdbClose] \<and> \<not> serving s \<and> cancelled s \<and> store_open s \<or>
         pc = [BoltdbClose] \<and> \<not> serving s \<and> cancelled s \<and> wg s = 0 \<and> store_open s \<or>
         pc = [] \<and> \<not> serving s \<and> cancelled s \<and> wg s = 0 \<and> \<not> store_open s))"

section \<open>Example data\<close>

text \<open>
  The records of entries written under the encoded commit timestamp, and a server whose
  store holds one namespace and which has served no scan yet.
\<close>

definition entries_at :: "(int64 \<times> bytes) list \<Rightarrow> record_kv list" where
  "entries_at es = map (\<lambda>(ts, val). (EncodeInt [] ts, val)) es"

definition server_with :: "namespace \<Rightarrow> record_kv list \<Rightarrow> int64 \<Rightarrow> int64 \<Rightarrow> Server" where
  "server_with ns b lo up =
     \<lparr>boltdb = \<lparr>buckets = [ns \<mapsto> b], scanned = []\<rparr>, window = \<lparr>upper = up, lower = lo\<rparr>\<rparr>"

text \<open>A payload decoder that fails on the empty value and returns any other value as it is.\<close>

definition decode_nonempty :: "bytes \<Rightarrow> error + bytes" where
  "decode_nonempty val = (if val = [] then Inl (New ''empty value'') else Inr val)"

section \<open>The scan callback, record by record\<close>

lemma DecodeInt_Inr: "DecodeInt k = Inr (r, c) \<Longrightarrow> r = drop 8 k \<and> key_commitTS k = c \<and> 8 \<le> length k"
  by (auto simp add: DecodeInt_def key_commitTS_def split: if_splits)

lemma sint_dec: "0 <s (l :: int32) \<Longrightarrow> sint (l - 1) = sint l - 1"
proof -
  assume "0 <s l"
  then have p: "0 < sint l" by (simp add: word_sless_alt)
  have "sint l < 2 ^ (LENGTH(32) - 1)" by (rule sint_lt)
  then have "sint l - 1 < 2 ^ 31" "- (2 ^ 31) \<le> sint l - 1" using p by simp_all
  then have "signed_take_bit 31 (sint l - 1) = sint l - 1"
    by (simp add: signed_take_bit_int_eq_self)
  then show ?thesis by (simp add: sint_word_ariths)
qed

lemma scan_fn_cases:
  obtains (stop) eo where "scan_fn dp start e k v s = (s, False, eo)"
  | (skip) "scan_fn dp start e k v s = (s, True, None)" "DecodeInt k = Inr (drop 8 k, start)"
        "0 <s limit s"
  | (append) c p where
      "scan_fn dp start e k v s =
         (s\<lparr>ret := (ret s)\<lparr>Payloads := Payloads (ret s) @ [p], EndCommitTS := c\<rparr>,
            limit := limit s - 1\<rparr>, True, None)"
      "DecodeInt k = Inr (drop 8 k, c)" "c \<noteq> start" "c <s e" "dp v = Inr p" "0 <s limit s"
proof (cases "limit s <=s 0")
  case True
  then show ?thesis using stop by (simp add: scan_fn_def)
next
  case lim: False
  then have pos: "0 <s limit s" by (simp add: word_sless_alt word_sle_eq)
  show ?thesis
  proof (cases "DecodeInt k")
    case (Inl err)
    then show ?thesis using stop lim by (simp add: scan_fn_def)
  next
    case (Inr rc)
    obtain r c where rc: "rc = (r, c)" by (cases rc)
    with Inr have d: "DecodeInt k = Inr (drop 8 k, c)" using DecodeInt_Inr by blast
    show ?thesis
    proof (cases "c = start")
      case True
      then show ?thesis using skip lim d pos by (simp add: scan_fn_def)
    next
      case ne: False
      show ?thesis
      proof (cases "e <=s c")
        case True
        then show ?thesis using stop lim d ne by (simp add: scan_fn_def)
      next
        case lt: False
        then have lt': "c <s e" by (simp add: word_sless_alt word_sle_eq)
        show ?thesis
        proof (cases "dp v")
          case (Inl err)
          then show ?thesis using stop lim d ne lt by (simp add: scan_fn_def)
        next
          case (Inr p)
          then show ?thesis using append [of c p] lim d ne lt lt' pos by (simp add: scan_fn_def)
        qed
      qed
    qed
  qed
qed

lemma scan_result_Nil: "scan_result dp start e s [] s"
  by (simp add: scan_result_def after_start_def)

lemma scan_result_skip:
  assumes "DecodeInt k = Inr (drop 8 k, start)" "scan_result dp start e s vis s'"
  shows "scan_result dp start e s ((k, v) # vis) s'"
proof -
  have "key_commitTS k = start" using assms(1) by (simp add: key_commitTS_def)
  then show ?thesis using assms by (simp add: scan_result_def after_start_def Let_def)
qed

lemma scan_result_append:
  assumes d: "DecodeInt k = Inr (drop 8 k, c)" and ne: "c \<noteq> start" and lt: "c <s e"
    and p: "dp v = Inr p" and pos: "0 <s limit s"
    and r: "scan_result dp start e
       (s\<lparr>ret := (ret s)\<lparr>Payloads := Payloads (ret s) @ [p], EndCommitTS := c\<rparr>,
          limit := limit s - 1\<rparr>) vis s'"
  shows "scan_result dp start e s ((k, v) # vis) s'"
proof -
  have kc: "key_commitTS k = c" using d by (simp add: key_commitTS_def)
  have vp: "val_payload dp v = p" using p by (simp add: val_payload_def)
  have as: "after_start start ((k, v) # vis) = (k, v) # after_start start vis"
    using kc ne by (simp add: after_start_def)
  have sd: "sint (limit s - 1) = sint (limit s) - 1" using pos by (rule sint_dec)
  have sp: "0 < sint (limit s)" using pos by (simp add: word_sless_alt)
  show ?thesis
    using r sp unfolding scan_result_def Let_def as
    by (auto simp add: kc vp d p lt sd algebra_simps)
qed

lemma Scan_records_scan_fn:
  "Scan_records (scan_fn dp start e) recs s = (s', err) \<Longrightarrow>
     \<exists>n. scan_result dp start e s (take n recs) s'"
proof (induction recs arbitrary: s)
  case Nil
  then show ?case using scan_result_Nil [of dp start e s] by simp
next
  case (Cons kv recs)
  obtain k v where kv: "kv = (k, v)" by (cases kv)
  show ?case
  proof (cases rule: scan_fn_cases [of dp start e k v s])
    case (stop eo)
    with Cons.prems kv have "s' = s" by (cases eo) simp_all
    then have "scan_result dp start e s (take 0 (kv # recs)) s'"
      using scan_result_Nil [of dp start e s] by simp
    then show ?thesis by blast
  next
    case skip
    with Cons.prems kv have "Scan_records (scan_fn dp start e) recs s = (s', err)" by simp
    then obtain n where "scan_result dp start e s (take n recs) s'"
      using Cons.IH by blast
    then have "scan_result dp start e s (take (Suc n) (kv # recs)) s'"
      using scan_result_skip [where s = s, OF skip(2)] kv by simp
    then show ?thesis by blast
  next
    case (append c p)
    let ?s1 = "s\<lparr>ret := (ret s)\<lparr>Payloads := Payloads (ret s) @ [p], EndCommitTS := c\<rparr>,
          limit := limit s - 1\<rparr>"
    from append(1) Cons.prems kv
    have "Scan_records (scan_fn dp start e) recs ?s1 = (s', err)" by simp
    then obtain n where "scan_result dp start e ?s1 (take n recs) s'"
      using Cons.IH by blast
    then have "scan_result dp start e s (take (Suc n) (kv # recs)) s'"
      using scan_result_append [where s = s and vis = "take n recs" and s' = s' and dp = dp and v = v
          and k = k and c = c and p = p and start = start and e = e] append(2-6) kv
      by simp
    then show ?thesis by blast
  qed
qed

section \<open>The order of encoded keys\<close>

text \<open>
  The bytewise order of keys is the signed order of the commit timestamps they decode to:
  a key at or after \<open>EncodeInt [] start\<close> decodes, when it decodes, to a timestamp that
  is at least \<open>start\<close>.
\<close>

lemma be_nat_bound: "be_nat bs < 256 ^ length bs"
proof (induction bs)
  case Nil show ?case by simp
next
  case (Cons b bs)
  have "unat b < 2 ^ LENGTH(8)" by (rule unsigned_less)
  then have "unat b + 1 \<le> 256" by simp
  then have "(unat b + 1) * 256 ^ length bs \<le> 256 * 256 ^ length bs"
    by (rule mult_le_mono1)
  moreover have "be_nat (b # bs) < (unat b + 1) * 256 ^ length bs"
    using Cons.IH by (simp add: algebra_simps)
  ultimately have "be_nat (b # bs) < 256 * 256 ^ length bs"
    by (rule less_le_trans [rotated])
  then show ?case by simp
qed

lemma be_nat_less:
  "length xs = length ys \<Longrightarrow> xs < ys \<Longrightarrow> be_nat xs < be_nat ys"
proof (induction xs ys rule: list_induct2)
  case Nil then show ?case by simp
next
  case (Cons x xs y ys)
  show ?case
  proof (cases "x < y")
    case True
    then have "unat x + 1 \<le> unat y" by (simp add: word_less_nat_alt)
    then have "(unat x + 1) * 256 ^ length xs \<le> unat y * 256 ^ length xs"
      by (rule mult_le_mono1)
    moreover have "be_nat xs < 256 ^ length xs" by (rule be_nat_bound)
    ultimately show ?thesis using Cons.hyps by (simp add: algebra_simps)
  next
    case False
    with Cons.prems have "x = y" "xs < ys" by auto
    with Cons.IH show ?thesis using Cons.hyps by simp
  qed
qed

lemma Uint64_nested:
  "Uint64 [b0,b1,b2,b3,b4,b5,b6,b7] =
    push_bit 8 (push_bit 8 (push_bit 8 (push_bit 8 (push_bit 8 (push_bit 8 (push_bit 8 (ucast b0) OR ucast b1) OR ucast b2) OR ucast b3) OR ucast b4) OR ucast b5) OR ucast b6) OR ucast b7"
  apply (simp add: push_bit_or push_bit_push_bit ac_simps)
  done

lemma unat_shift_or_byte: "unat (x :: 64 word) < 2 ^ 56 \<Longrightarrow> unat (push_bit 8 x OR ucast (b :: byte)) = unat x * 256 + unat b"
proof -
  assume a: "unat x < 2 ^ 56"
  have "push_bit 8 x AND ucast b = (0 :: 64 word)"
    by (rule bit_word_eqI) (auto simp: bit_simps dest: bit_imp_le_length)
  then have e: "push_bit 8 x OR ucast b = push_bit 8 x + ucast b"
    by (rule disjunctive_add_eq_or [symmetric])
  have "unat x * 256 < 2 ^ 64" using a by simp
  then have "take_bit 64 (unat x * 256) = unat x * 256"
    by (simp only: take_bit_nat_eq_self)
  moreover have "unat (push_bit 8 x) = take_bit 64 (push_bit 8 (unat x))"
    by (simp only: unsigned_push_bit_eq len_bit0 len_num1 mult_numeral_1_right mult_1_right)
       simp
  ultimately have p: "unat (push_bit 8 x) = unat x * 256"
    by (simp add: push_bit_eq_mult)
  have b8: "unat b < 2 ^ LENGTH(8)" by (rule unsigned_less)
  then have "unat b < 2 ^ 64" by simp
  then have "take_bit 64 (unat b) = unat b"
    by (simp only: take_bit_nat_eq_self)
  then have u: "unat (ucast b :: 64 word) = unat b"
    by (simp add: unsigned_ucast_eq)
  have "unat x * 256 + unat b < 2 ^ 64" using a b8 by simp
  then show ?thesis unfolding e by (simp add: unat_word_ariths p u)
qed

lemma be_nat_snoc: "be_nat (bs @ [b]) = be_nat bs * 256 + unat b"
  by (induction bs) (simp_all add: algebra_simps)

lemma unat_be_word: "length bs \<le> 8 \<Longrightarrow> unat (be_word bs) = be_nat bs"
proof (induction bs rule: rev_induct)
  case Nil show ?case by (simp add: be_word_def)
next
  case (snoc b bs)
  then have len: "length bs \<le> 7" and ih: "unat (be_word bs) = be_nat bs" by simp_all
  have "be_nat bs < 256 ^ length bs" by (rule be_nat_bound)
  also have "(256::nat) ^ length bs \<le> 256 ^ 7" using len
    by (intro power_increasing) simp_all
  finally have "unat (be_word bs) < 2 ^ 56" using ih by simp
  then have "unat (push_bit 8 (be_word bs) OR ucast b) = unat (be_word bs) * 256 + unat b"
    by (rule unat_shift_or_byte)
  then show ?case by (simp add: be_word_def be_nat_snoc ih [unfolded be_word_def])
qed

lemma unat_Uint64: "unat (Uint64 [b0,b1,b2,b3,b4,b5,b6,b7]) = be_nat [b0,b1,b2,b3,b4,b5,b6,b7]"
proof -
  have "Uint64 [b0,b1,b2,b3,b4,b5,b6,b7] = be_word [b0,b1,b2,b3,b4,b5,b6,b7]"
    unfolding Uint64_nested by (simp add: be_word_def)
  then show ?thesis using unat_be_word [of "[b0,b1,b2,b3,b4,b5,b6,b7]"] by simp
qed

lemma byte_bit:
  "bit (push_bit k (ucast (ucast (drop_bit k v) :: byte)) :: 64 word) n \<longleftrightarrow>
     k \<le> n \<and> n < k + 8 \<and> n < 64 \<and> bit v n"
  by (auto simp add: bit_simps dest: bit_imp_le_length)

lemma Uint64_PutUint64: "Uint64 (PutUint64 v) = v"
proof (rule bit_word_eqI)
  fix n assume n: "n < LENGTH(64)"
  have "bit (Uint64 (PutUint64 v)) n \<longleftrightarrow>
     bit (push_bit 0 (ucast (ucast (drop_bit 0 v) :: byte)) :: 64 word) n \<or>
     bit (push_bit 8 (ucast (ucast (drop_bit 8 v) :: byte)) :: 64 word) n \<or>
     bit (push_bit 16 (ucast (ucast (drop_bit 16 v) :: byte)) :: 64 word) n \<or>
     bit (push_bit 24 (ucast (ucast (drop_bit 24 v) :: byte)) :: 64 word) n \<or>
     bit (push_bit 32 (ucast (ucast (drop_bit 32 v) :: byte)) :: 64 word) n \<or>
     bit (push_bit 40 (ucast (ucast (drop_bit 40 v) :: byte)) :: 64 word) n \<or>
     bit (push_bit 48 (ucast (ucast (drop_bit 48 v) :: byte)) :: 64 word) n \<or>
     bit (push_bit 56 (ucast (ucast (drop_bit 56 v) :: byte)) :: 64 word) n"
    unfolding PutUint64_def Uint64.simps by (simp only: bit_or_iff push_bit_0_id drop_bit_0 id_apply)
  also have "\<dots> \<longleftrightarrow> bit v n"
    unfolding byte_bit using n by simp arith
  finally show "bit (Uint64 (PutUint64 v)) n = bit v n" .
qed

lemma signMask_exp: "signMask = 2 ^ 63"
  by (simp add: signMask_def)

lemma bit_signMask: "bit signMask n \<longleftrightarrow> n = 63"
  unfolding signMask_exp bit_exp_iff by (auto simp add: possible_bit_word)

lemma and_signMask_0: "\<not> bit x 63 \<Longrightarrow> x AND signMask = 0"
  by (rule bit_word_eqI) (auto simp add: bit_simps bit_signMask)

lemma xor_add_low: "\<not> bit x 63 \<Longrightarrow> x XOR signMask = x + signMask"
  using and_signMask_0 [of x]
  by (simp add: disjunctive_add_eq_or disjunctive_xor_eq_or)

lemma xor_add: "x XOR signMask = x + signMask"
proof (cases "bit x 63")
  case False then show ?thesis by (rule xor_add_low)
next
  case True
  then have "\<not> bit (x XOR signMask) 63" by (simp add: bit_simps bit_signMask)
  then have "(x XOR signMask) XOR signMask = (x XOR signMask) + signMask"
    by (rule xor_add_low)
  then have e: "(x XOR signMask) + signMask = x" by (simp add: xor.assoc)
  have z: "signMask + signMask = 0" by (simp add: signMask_def)
  have "x + signMask = ((x XOR signMask) + signMask) + signMask" by (simp only: e)
  also have "\<dots> = (x XOR signMask) + (signMask + signMask)" by (simp only: add.assoc)
  also have "\<dots> = x XOR signMask" by (simp only: z add_0_right)
  finally show ?thesis by simp
qed

lemma uint_xor_signMask: "uint (x XOR signMask) = sint x + 2 ^ 63"
proof -
  have "uint (x + signMask) = take_bit 64 (uint x + 2 ^ 63)"
    by (simp add: uint_word_ariths signMask_def take_bit_eq_mod)
  moreover have "sint x = take_bit 64 (uint x + 2 ^ 63) - 2 ^ 63"
    by (simp add: sint_uint signed_take_bit_eq_take_bit_shift)
  ultimately show ?thesis by (simp add: xor_add)
qed

lemma cmp_uint_le: "x XOR signMask \<le> y XOR signMask \<longleftrightarrow> x \<le>s y"
  by (simp add: word_le_def word_sle_eq uint_xor_signMask)

lemma cmp_uint_less: "x XOR signMask < y XOR signMask \<longleftrightarrow> x <s y"
  by (simp add: word_less_def word_sless_alt uint_xor_signMask)

lemma lex_take:
  fixes a :: "'a::linorder list"
  shows "a \<le> k \<Longrightarrow> length a \<le> length k \<Longrightarrow> a \<le> take (length a) k"
proof (induction a arbitrary: k)
  case Nil then show ?case by simp
next
  case (Cons x xs)
  then obtain y ys where k: "k = y # ys" by (cases k) auto
  with Cons.prems have "x < y \<or> x = y \<and> xs \<le> ys" by simp
  then show ?case
  proof
    assume "x < y" then show ?thesis using k by simp
  next
    assume "x = y \<and> xs \<le> ys"
    then show ?thesis using Cons.IH [of ys] Cons.prems k by simp
  qed
qed

lemma be_nat_le:
  "length xs = length ys \<Longrightarrow> xs \<le> ys \<Longrightarrow> be_nat xs \<le> be_nat ys"
  using be_nat_less [of xs ys] by (cases "xs = ys") (auto simp add: less_le)

lemma length8:
  "length (t :: 'a list) = 8 \<Longrightarrow> \<exists>b0 b1 b2 b3 b4 b5 b6 b7. t = [b0,b1,b2,b3,b4,b5,b6,b7]"
  by (auto simp add: numeral_eq_Suc length_Suc_conv)

lemma unat_Uint64_8: "length t = 8 \<Longrightarrow> unat (Uint64 t) = be_nat t"
  using length8 [of t] unat_Uint64 by auto

lemma length_PutUint64: "length (PutUint64 u) = 8"
  by (simp add: PutUint64_def)

lemma Uint64_take: "Uint64 (take 8 k) = Uint64 k"
proof (cases "8 \<le> length k")
  case True
  then have "length (take 8 k) = 8" by simp
  then obtain b0 b1 b2 b3 b4 b5 b6 b7 where t: "take 8 k = [b0,b1,b2,b3,b4,b5,b6,b7]"
    using length8 by blast
  have "k = take 8 k @ drop 8 k" by simp
  then have "k = b0 # b1 # b2 # b3 # b4 # b5 # b6 # b7 # drop 8 k" using t by simp
  then have "Uint64 k = Uint64 [b0,b1,b2,b3,b4,b5,b6,b7]"
    by (metis Uint64.simps(1))
  then show ?thesis using t by simp
next
  case False
  then show ?thesis by simp
qed

lemma PutUint64_le_Uint64:
  assumes "PutUint64 u \<le> k" "8 \<le> length k"
  shows "u \<le> Uint64 (take 8 k)"
proof -
  have "PutUint64 u \<le> take (length (PutUint64 u)) k"
    using assms by (intro lex_take) (simp_all add: length_PutUint64)
  then have le: "PutUint64 u \<le> take 8 k" by (simp add: length_PutUint64)
  have l8: "length (take 8 k) = 8" using assms(2) by simp
  have "unat u = unat (Uint64 (PutUint64 u))" by (simp add: Uint64_PutUint64)
  also have "\<dots> = be_nat (PutUint64 u)" by (rule unat_Uint64_8) (rule length_PutUint64)
  also have "\<dots> \<le> be_nat (take 8 k)" using le l8 by (intro be_nat_le) (simp_all add: length_PutUint64)
  also have "\<dots> = unat (Uint64 (take 8 k))" using l8 by (rule unat_Uint64_8 [symmetric])
  finally show ?thesis by (simp add: word_le_nat_alt)
qed

lemma key_commitTS_ge:
  assumes "EncodeInt [] start \<le> k" "8 \<le> length k"
  shows "start <=s key_commitTS k"
proof -
  have "start XOR signMask \<le> Uint64 (take 8 k)"
    using assms PutUint64_le_Uint64 [of "start XOR signMask" k]
    by (simp add: EncodeInt_def EncodeIntToCmpUint_def)
  moreover have "key_commitTS k XOR signMask = Uint64 (take 8 k)"
    using assms(2) by (simp add: key_commitTS_def DecodeInt_def DecodeCmpUintToInt_def xor.assoc)
  ultimately show ?thesis using cmp_uint_le [of start "key_commitTS k"] by simp
qed

lemma DecodeInt_EncodeInt: "DecodeInt (EncodeInt [] v) = Inr ([], v)"
  by (simp add: DecodeInt_def EncodeInt_def length_PutUint64 Uint64_PutUint64 EncodeIntToCmpUint_def
      DecodeCmpUintToInt_def xor.assoc)

section \<open>What \<open>DumpBinlog\<close> returns\<close>

lemma set_Seek: "set (Seek b sk) = {(k, v). (k, v) \<in> set b \<and> sk \<le> k}"
  by (auto simp add: Seek_def)

lemma DumpBinlog_None:
  assumes "buckets (boltdb s) ns = None"
  shows "DumpBinlog dp ns s req =
    (s\<lparr>boltdb := (boltdb s)\<lparr>scanned := scanned (boltdb s) @ [(ns, EncodeInt [] (BeginCommitTS req))]\<rparr>\<rparr>,
     new_DumpBinlogResp\<lparr>Errmsg := Error (NotFound ns)\<rparr>, Some (Traced (NotFound ns)))"
  using assms by (simp add: DumpBinlog_def DumpBinlog_scan_def Scan_def Let_def)

lemma DumpBinlog_scan_Some:
  assumes "buckets (boltdb s) ns = Some b"
  shows "DumpBinlog_scan dp ns s req =
    (case Scan_records (scan_fn dp (BeginCommitTS req) (LoadLower (window s)))
            (Seek b (EncodeInt [] (BeginCommitTS req)))
            \<lparr>ret = new_DumpBinlogResp, limit = Limit req\<rparr> of
       (vars, serr) \<Rightarrow>
         ((boltdb s)\<lparr>scanned := scanned (boltdb s) @ [(ns, EncodeInt [] (BeginCommitTS req))]\<rparr>,
          vars, serr))"
  using assms by (simp add: DumpBinlog_scan_def Scan_def Let_def)

lemma DumpBinlog_Some:
  assumes "DumpBinlog dp ns s req = (s', resp, err)" and "buckets (boltdb s) ns = Some b"
  obtains n vars serr where
    "DumpBinlog_scan dp ns s req =
       ((boltdb s)\<lparr>scanned := scanned (boltdb s) @ [(ns, EncodeInt [] (BeginCommitTS req))]\<rparr>,
        vars, serr)"
    "scan_result dp (BeginCommitTS req) (LoadLower (window s))
       \<lparr>ret = new_DumpBinlogResp, limit = Limit req\<rparr>
       (take n (Seek b (EncodeInt [] (BeginCommitTS req)))) vars"
    "Payloads resp = Payloads (ret vars)" "EndCommitTS resp = EndCommitTS (ret vars)"
    "err = Trace serr" "Errmsg resp = (case serr of None \<Rightarrow> '''' | Some e \<Rightarrow> Error e)"
proof -
  obtain vars serr where sr:
    "Scan_records (scan_fn dp (BeginCommitTS req) (LoadLower (window s)))
            (Seek b (EncodeInt [] (BeginCommitTS req)))
            \<lparr>ret = new_DumpBinlogResp, limit = Limit req\<rparr> = (vars, serr)"
    by (cases "Scan_records (scan_fn dp (BeginCommitTS req) (LoadLower (window s)))
            (Seek b (EncodeInt [] (BeginCommitTS req)))
            \<lparr>ret = new_DumpBinlogResp, limit = Limit req\<rparr>")
  then obtain n where n: "scan_result dp (BeginCommitTS req) (LoadLower (window s))
       \<lparr>ret = new_DumpBinlogResp, limit = Limit req\<rparr>
       (take n (Seek b (EncodeInt [] (BeginCommitTS req)))) vars"
    using Scan_records_scan_fn by blast
  have sc: "DumpBinlog_scan dp ns s req =
       ((boltdb s)\<lparr>scanned := scanned (boltdb s) @ [(ns, EncodeInt [] (BeginCommitTS req))]\<rparr>,
        vars, serr)"
    using DumpBinlog_scan_Some [OF assms(2), of dp req] sr by simp
  have em: "Errmsg (ret vars) = ''''"
    using n by (simp add: scan_result_def Let_def new_DumpBinlogResp_def)
  have "Payloads resp = Payloads (ret vars)" "EndCommitTS resp = EndCommitTS (ret vars)"
    "err = Trace serr" "Errmsg resp = (case serr of None \<Rightarrow> '''' | Some e \<Rightarrow> Error e)"
    using assms(1) sc em by (auto simp add: DumpBinlog_def split: option.splits)
  then show ?thesis using that sc n by blast
qed

lemma Seek_after_start_gt:
  assumes "(k, v) \<in> set (after_start start (take n (Seek b (EncodeInt [] start))))"
    and "DecodeInt k = Inr (drop 8 k, key_commitTS k)"
  shows "start <s key_commitTS k"
proof -
  from assms(1) have ne: "key_commitTS k \<noteq> start"
    and m: "(k, v) \<in> set (take n (Seek b (EncodeInt [] start)))"
    by (auto simp add: after_start_def)
  from m have "(k, v) \<in> set (Seek b (EncodeInt [] start))" by (rule in_set_takeD)
  then have "EncodeInt [] start \<le> k" by (simp add: set_Seek)
  moreover have "8 \<le> length k" using assms(2) by (auto simp add: DecodeInt_def split: if_splits)
  ultimately have "start <=s key_commitTS k" by (rule key_commitTS_ge)
  with ne show ?thesis by (auto simp add: word_sless_eq)
qed

lemma DumpBinlog_entries:
  assumes "DumpBinlog dp ns s req = (s', resp, err)" and "buckets (boltdb s) ns = Some b"
  shows "\<exists>n. let es = after_start (BeginCommitTS req)
                  (take n (Seek b (EncodeInt [] (BeginCommitTS req)))) in
           Payloads resp = map (\<lambda>(k, v). val_payload dp v) es \<and>
           (\<forall>(k, v) \<in> set es.
              DecodeInt k = Inr (drop 8 k, key_commitTS k) \<and> dp v = Inr (val_payload dp v) \<and>
              BeginCommitTS req <s key_commitTS k \<and> key_commitTS k <s LoadLower (window s))"
proof -
  from assms obtain n vars serr where
    r: "scan_result dp (BeginCommitTS req) (LoadLower (window s))
       \<lparr>ret = new_DumpBinlogResp, limit = Limit req\<rparr>
       (take n (Seek b (EncodeInt [] (BeginCommitTS req)))) vars"
    and p: "Payloads resp = Payloads (ret vars)"
    by (rule DumpBinlog_Some)
  let ?vis = "take n (Seek b (EncodeInt [] (BeginCommitTS req)))"
  let ?es = "after_start (BeginCommitTS req) ?vis"
  have a: "list_all (\<lambda>(k, v). DecodeInt k = Inr (drop 8 k, key_commitTS k)) ?vis"
    and b: "list_all (\<lambda>(k, v). key_commitTS k <s LoadLower (window s) \<and> dp v = Inr (val_payload dp v)) ?es"
    and c: "Payloads (ret vars) = map (\<lambda>(k, v). val_payload dp v) ?es"
    using r by (simp_all add: scan_result_def Let_def new_DumpBinlogResp_def)
  have "\<forall>(k, v) \<in> set ?es.
              DecodeInt k = Inr (drop 8 k, key_commitTS k) \<and> dp v = Inr (val_payload dp v) \<and>
              BeginCommitTS req <s key_commitTS k \<and> key_commitTS k <s LoadLower (window s)"
  proof (clarify, intro conjI)
    fix k v assume m: "(k, v) \<in> set ?es"
    then have "(k, v) \<in> set ?vis" by (simp add: after_start_def)
    with a show d: "DecodeInt k = Inr (drop 8 k, key_commitTS k)"
      by (auto simp add: list_all_iff)
    from m b show "dp v = Inr (val_payload dp v)" "key_commitTS k <s LoadLower (window s)"
      by (auto simp add: list_all_iff)
    from m d show "BeginCommitTS req <s key_commitTS k" by (rule Seek_after_start_gt)
  qed
  with c p show ?thesis unfolding Let_def by auto
qed

lemma key_commitTS_EncodeInt: "key_commitTS (EncodeInt [] v) = v"
  by (simp add: key_commitTS_def DecodeInt_EncodeInt)

lemma length_EncodeInt: "length (EncodeInt [] v) = 8"
  by (simp add: EncodeInt_def length_PutUint64)

lemma EncodeInt_le_iff: "EncodeInt [] a \<le> EncodeInt [] b \<longleftrightarrow> a <=s b"
proof
  assume "EncodeInt [] a \<le> EncodeInt [] b"
  then have "a <=s key_commitTS (EncodeInt [] b)"
    by (rule key_commitTS_ge) (simp add: length_EncodeInt)
  then show "a <=s b" by (simp add: key_commitTS_EncodeInt)
next
  assume ab: "a <=s b"
  show "EncodeInt [] a \<le> EncodeInt [] b"
  proof (rule ccontr)
    assume "\<not> EncodeInt [] a \<le> EncodeInt [] b"
    then have lt: "EncodeInt [] b < EncodeInt [] a" by simp
    then have "EncodeInt [] b \<le> EncodeInt [] a" by simp
    then have "b <=s key_commitTS (EncodeInt [] a)"
      by (rule key_commitTS_ge) (simp add: length_EncodeInt)
    then have "b <=s a" by (simp add: key_commitTS_EncodeInt)
    with ab have "sint a = sint b" by (simp add: word_sle_eq)
    then have "a = b" by (rule signed_word_eqI)
    with lt show False by simp
  qed
qed

lemmas DumpBinlog_eval =
  DumpBinlog_def DumpBinlog_scan_def Scan_def Seek_def scan_fn_def
  new_DumpBinlogResp_def LoadLower_def EncodeInt_le_iff DecodeInt_EncodeInt
  key_commitTS_EncodeInt word_sle_eq word_sless_alt Let_def entries_at_def server_with_def
  decode_nonempty_def

subsection \<open>The bounds of a response\<close>

text \<open>
  C1.  Every entry whose payload \<open>DumpBinlog\<close> returns has a commit timestamp strictly
  greater than the request's \<open>BeginCommitTS\<close> and strictly less than the lower bound of the
  window read at the start of the call: the payloads returned are those of the entries, other
  than the one at \<open>BeginCommitTS\<close>, among the first \<open>n\<close> records of the scan, for
  some \<open>n\<close>, and each of them decodes and lies strictly between the two bounds.  When
  the store does not hold the namespace no payload is returned.  With entries at 10 to 15,
  the lower bound 13, \<open>BeginCommitTS = 10\<close> and \<open>Limit = 10\<close>, the response holds the
  payloads of the entries at 11 and 12, and \<open>EndCommitTS = 12\<close>.
\<close>

theorem DumpBinlog_window_bounds:
  "(DumpBinlog dp ns s req = (s', resp, err) \<and> buckets (boltdb s) ns = Some b \<longrightarrow>
      (\<exists>n. let es = after_start (BeginCommitTS req)
                  (take n (Seek b (EncodeInt [] (BeginCommitTS req)))) in
           Payloads resp = map (\<lambda>(k, v). val_payload dp v) es \<and>
           (\<forall>(k, v) \<in> set es.
              DecodeInt k = Inr (drop 8 k, key_commitTS k) \<and> dp v = Inr (val_payload dp v) \<and>
              BeginCommitTS req <s key_commitTS k \<and> key_commitTS k <s LoadLower (window s)))) \<and>
   (DumpBinlog dp ns s req = (s', resp, err) \<and> buckets (boltdb s) ns = None \<longrightarrow>
      Payloads resp = []) \<and>
   (dp v11 = Inr p11 \<and> dp v12 = Inr p12 \<longrightarrow>
      snd (DumpBinlog dp ns'
        (server_with ns'
           (entries_at [(10, v10), (11, v11), (12, v12), (13, v13), (14, v14), (15, v15)]) 13 up)
        \<lparr>BeginCommitTS = 10, Limit = 10\<rparr>)
      = (\<lparr>EndCommitTS = 12, Payloads = [p11, p12], Errmsg = ''''\<rparr>, None))"
proof (intro conjI impI)
  assume "DumpBinlog dp ns s req = (s', resp, err) \<and> buckets (boltdb s) ns = Some b"
  then show "\<exists>n. let es = after_start (BeginCommitTS req)
                  (take n (Seek b (EncodeInt [] (BeginCommitTS req)))) in
           Payloads resp = map (\<lambda>(k, v). val_payload dp v) es \<and>
           (\<forall>(k, v) \<in> set es.
              DecodeInt k = Inr (drop 8 k, key_commitTS k) \<and> dp v = Inr (val_payload dp v) \<and>
              BeginCommitTS req <s key_commitTS k \<and> key_commitTS k <s LoadLower (window s))"
    using DumpBinlog_entries by blast
next
  assume "DumpBinlog dp ns s req = (s', resp, err) \<and> buckets (boltdb s) ns = None"
  then show "Payloads resp = []"
    using DumpBinlog_None [of s ns dp req] by (auto simp add: new_DumpBinlogResp_def)
next
  assume "dp v11 = Inr p11 \<and> dp v12 = Inr p12"
  then show "snd (DumpBinlog dp ns'
        (server_with ns'
           (entries_at [(10, v10), (11, v11), (12, v12), (13, v13), (14, v14), (15, v15)]) 13 up)
        \<lparr>BeginCommitTS = 10, Limit = 10\<rparr>)
      = (\<lparr>EndCommitTS = 12, Payloads = [p11, p12], Errmsg = ''''\<rparr>, None)"
    by (simp add: DumpBinlog_eval)
qed

text \<open>
  The bounds at a store with entries at 10 to 13, the lower bound 13 and \<open>BeginCommitTS = 10\<close>:
  the response holds the payloads of the entries at 11 and 12.  The store with entries at 10
  to 15 gives the same response.
\<close>

theorem DumpBinlog_window_bounds_witness:
  "DumpBinlog Inr ''binlog_1''
       (server_with ''binlog_1'' (entries_at [(10, [1]), (11, [2]), (12, [3]), (13, [4])]) 13 13)
       \<lparr>BeginCommitTS = 10, Limit = 10\<rparr>
     = ((server_with ''binlog_1'' (entries_at [(10, [1]), (11, [2]), (12, [3]), (13, [4])]) 13 13)
          \<lparr>boltdb := \<lparr>buckets = [''binlog_1'' \<mapsto> entries_at [(10, [1]), (11, [2]), (12, [3]), (13, [4])]],
                      scanned = [(''binlog_1'', EncodeInt [] 10)]\<rparr>\<rparr>,
        \<lparr>EndCommitTS = 12, Payloads = [[2], [3]], Errmsg = ''''\<rparr>, None) \<and>
   buckets (boltdb (server_with ''binlog_1'' (entries_at [(10, [1]), (11, [2]), (12, [3]), (13, [4])]) 13 13))
       ''binlog_1'' = Some (entries_at [(10, [1]), (11, [2]), (12, [3]), (13, [4])]) \<and>
   (\<exists>n. let es = after_start 10
                  (take n (Seek (entries_at [(10, [1]), (11, [2]), (12, [3]), (13, [4])]) (EncodeInt [] 10))) in
           [[2], [3]] = map (\<lambda>(k, v). val_payload Inr v) es \<and>
           (\<forall>(k, v) \<in> set es.
              DecodeInt k = Inr (drop 8 k, key_commitTS k) \<and> Inr v = (Inr (val_payload Inr v) :: error + bytes) \<and>
              10 <s key_commitTS k \<and> key_commitTS k <s 13)) \<and>
   snd (DumpBinlog Inr ''binlog_1''
        (server_with ''binlog_1''
           (entries_at [(10, [1]), (11, [2]), (12, [3]), (13, [4]), (14, [5]), (15, [6])]) 13 15)
        \<lparr>BeginCommitTS = 10, Limit = 10\<rparr>)
     = (\<lparr>EndCommitTS = 12, Payloads = [[2], [3]], Errmsg = ''''\<rparr>, None)"
proof -
  let ?b = "entries_at [(10, [1]), (11, [2]), (12, [3]), (13, [4])]"
  let ?s = "server_with ''binlog_1'' ?b 13 13"
  let ?req = "\<lparr>BeginCommitTS = 10, Limit = 10\<rparr>"
  let ?s' = "?s\<lparr>boltdb := \<lparr>buckets = [''binlog_1'' \<mapsto> ?b], scanned = [(''binlog_1'', EncodeInt [] 10)]\<rparr>\<rparr>"
  let ?resp = "\<lparr>EndCommitTS = 12, Payloads = [[2], [3]], Errmsg = ''''\<rparr>"
  have h1: "DumpBinlog Inr ''binlog_1'' ?s ?req = (?s', ?resp, None)"
    by (simp add: DumpBinlog_eval)
  have h2: "buckets (boltdb ?s) ''binlog_1'' = Some ?b"
    by (simp add: server_with_def)
  have "\<exists>n. let es = after_start (BeginCommitTS ?req)
                  (take n (Seek ?b (EncodeInt [] (BeginCommitTS ?req)))) in
           Payloads ?resp = map (\<lambda>(k, v). val_payload Inr v) es \<and>
           (\<forall>(k, v) \<in> set es.
              DecodeInt k = Inr (drop 8 k, key_commitTS k) \<and> Inr v = (Inr (val_payload Inr v) :: error + bytes) \<and>
              BeginCommitTS ?req <s key_commitTS k \<and> key_commitTS k <s LoadLower (window ?s))"
    using DumpBinlog_window_bounds [of Inr "''binlog_1''" ?s ?req ?s' ?resp None ?b] h1 h2
    by blast
  then have "\<exists>n. let es = after_start 10
                  (take n (Seek ?b (EncodeInt [] 10))) in
           [[2], [3]] = map (\<lambda>(k, v). val_payload Inr v) es \<and>
           (\<forall>(k, v) \<in> set es.
              DecodeInt k = Inr (drop 8 k, key_commitTS k) \<and> Inr v = (Inr (val_payload Inr v) :: error + bytes) \<and>
              10 <s key_commitTS k \<and> key_commitTS k <s 13)"
    by (simp add: LoadLower_def server_with_def)
  moreover have "(Inr [2] :: error + bytes) = Inr [2] \<and> (Inr [3] :: error + bytes) = Inr [3]"
    by simp
  then have "snd (DumpBinlog Inr ''binlog_1''
        (server_with ''binlog_1''
           (entries_at [(10, [1]), (11, [2]), (12, [3]), (13, [4]), (14, [5]), (15, [6])]) 13 15)
        \<lparr>BeginCommitTS = 10, Limit = 10\<rparr>)
     = (\<lparr>EndCommitTS = 12, Payloads = [[2], [3]], Errmsg = ''''\<rparr>, None)"
    using DumpBinlog_window_bounds [of Inr _ _ _ _ _ _ _ "[2]" "[2]" "[3]" "[3]" "''binlog_1''"
        "[1]" "[4]" "[5]" "[6]" 15]
    by blast
  ultimately show ?thesis using h1 h2 by blast
qed

subsection \<open>A response without payloads, and a limit that is not positive\<close>

lemma scan_fn_exhausted:
  "limit s <=s 0 \<Longrightarrow> scan_fn dp start e k v s = (s, False, None)"
  by (simp add: scan_fn_def)

lemma Scan_records_exhausted:
  "limit s <=s 0 \<Longrightarrow> Scan_records (scan_fn dp start e) recs s = (s, None)"
  by (cases recs) (auto simp add: scan_fn_exhausted)

lemma DumpBinlog_resp_empty:
  assumes "DumpBinlog dp ns s req = (s', resp, err)" and "Payloads resp = []"
  shows "EndCommitTS resp = 0"
proof (cases "buckets (boltdb s) ns")
  case None
  then show ?thesis using assms(1) DumpBinlog_None [of s ns dp req]
    by (auto simp add: new_DumpBinlogResp_def)
next
  case (Some b)
  with assms(1) obtain n vars serr where
    r: "scan_result dp (BeginCommitTS req) (LoadLower (window s))
       \<lparr>ret = new_DumpBinlogResp, limit = Limit req\<rparr>
       (take n (Seek b (EncodeInt [] (BeginCommitTS req)))) vars"
    and p: "Payloads resp = Payloads (ret vars)" and e: "EndCommitTS resp = EndCommitTS (ret vars)"
    by (rule DumpBinlog_Some)
  let ?es = "after_start (BeginCommitTS req) (take n (Seek b (EncodeInt [] (BeginCommitTS req))))"
  have "Payloads (ret vars) = map (\<lambda>(k, v). val_payload dp v) ?es"
    and ee: "EndCommitTS (ret vars) = (if ?es = [] then 0 else key_commitTS (fst (last ?es)))"
    using r by (simp_all add: scan_result_def Let_def new_DumpBinlogResp_def)
  with p assms(2) have "?es = []" by simp
  with ee e show ?thesis by simp
qed

text \<open>
  With entries at 10 to 15, the lower bound 13 and \<open>BeginCommitTS = 15\<close>, no payload is
  returned and \<open>EndCommitTS\<close> is not the request's \<open>BeginCommitTS\<close>.
\<close>

theorem DumpBinlog_nothing_returned_counterexample:
  "Payloads (fst (snd (DumpBinlog Inr ''binlog_1''
       (server_with ''binlog_1''
          (entries_at [(10, [1]), (11, [2]), (12, [3]), (13, [4]), (14, [5]), (15, [6])]) 13 15)
       \<lparr>BeginCommitTS = 15, Limit = 10\<rparr>))) = [] \<and>
   EndCommitTS (fst (snd (DumpBinlog Inr ''binlog_1''
       (server_with ''binlog_1''
          (entries_at [(10, [1]), (11, [2]), (12, [3]), (13, [4]), (14, [5]), (15, [6])]) 13 15)
       \<lparr>BeginCommitTS = 15, Limit = 10\<rparr>))) \<noteq> BeginCommitTS \<lparr>BeginCommitTS = 15, Limit = 10\<rparr>"
  by (simp add: DumpBinlog_eval)

text \<open>
  C3, as the code has it.  When the response holds no payload, its \<open>EndCommitTS\<close> is 0, the
  value of the fresh response: the callback assigns it only when it appends a payload.
\<close>

theorem DumpBinlog_nothing_returned:
  "DumpBinlog dp ns s req = (s', resp, err) \<and> Payloads resp = [] \<longrightarrow> EndCommitTS resp = 0"
  using DumpBinlog_resp_empty by blast

text \<open>The same at a store with entries at 10 and 15 and \<open>BeginCommitTS = 15\<close>.\<close>

theorem DumpBinlog_nothing_returned_witness:
  "DumpBinlog Inr ''binlog_1''
       (server_with ''binlog_1'' (entries_at [(10, [1]), (15, [6])]) 13 15)
       \<lparr>BeginCommitTS = 15, Limit = 10\<rparr>
     = ((server_with ''binlog_1'' (entries_at [(10, [1]), (15, [6])]) 13 15)
          \<lparr>boltdb := \<lparr>buckets = [''binlog_1'' \<mapsto> entries_at [(10, [1]), (15, [6])]],
                      scanned = [(''binlog_1'', EncodeInt [] 15)]\<rparr>\<rparr>,
        \<lparr>EndCommitTS = 0, Payloads = [], Errmsg = ''''\<rparr>, None) \<and>
   Payloads \<lparr>EndCommitTS = 0, Payloads = [], Errmsg = ''''\<rparr> = [] \<and>
   EndCommitTS \<lparr>EndCommitTS = 0, Payloads = [], Errmsg = ''''\<rparr> = 0"
proof -
  let ?s = "server_with ''binlog_1'' (entries_at [(10, [1]), (15, [6])]) 13 15"
  let ?req = "\<lparr>BeginCommitTS = 15, Limit = 10\<rparr>"
  let ?s' = "?s\<lparr>boltdb := \<lparr>buckets = [''binlog_1'' \<mapsto> entries_at [(10, [1]), (15, [6])]],
                      scanned = [(''binlog_1'', EncodeInt [] 15)]\<rparr>\<rparr>"
  let ?resp = "\<lparr>EndCommitTS = 0, Payloads = [], Errmsg = ''''\<rparr>"
  have h1: "DumpBinlog Inr ''binlog_1'' ?s ?req = (?s', ?resp, None)"
    by (simp add: DumpBinlog_eval)
  have h2: "Payloads ?resp = []" by simp
  have "EndCommitTS ?resp = 0"
    using DumpBinlog_nothing_returned [of Inr "''binlog_1''" ?s ?req ?s' ?resp None] h1 h2
    by blast
  with h1 h2 show ?thesis by blast
qed

text \<open>
  With \<open>Limit = 0\<close> the store has served one more scan after the call than before it: the
  scan is performed.
\<close>

theorem DumpBinlog_limit_nonpositive_counterexample:
  "scanned (boltdb (fst (DumpBinlog Inr ''binlog_1''
       (server_with ''binlog_1'' (entries_at [(10, [1]), (11, [2])]) 13 15)
       \<lparr>BeginCommitTS = 10, Limit = 0\<rparr>)))
   \<noteq> scanned (boltdb (server_with ''binlog_1'' (entries_at [(10, [1]), (11, [2])]) 13 15))"
  by (simp add: DumpBinlog_eval)

text \<open>
  C4, as the code has it.  With \<open>Limit <= 0\<close> the response holds no payload and
  \<open>EndCommitTS = 0\<close>.  \<open>DumpBinlog\<close> still calls \<open>Scan\<close> on the namespace, starting at
  the encoded \<open>BeginCommitTS\<close>; the callback returns false on any record it is given,
  without decoding it and leaving the captured variables as they are.  The response carries
  no error when the store holds the namespace, and the error of the scan otherwise.
\<close>

theorem DumpBinlog_limit_nonpositive:
  "Limit req <=s 0 \<longrightarrow>
     DumpBinlog dp ns s req =
       (s\<lparr>boltdb := (boltdb s)\<lparr>scanned := scanned (boltdb s) @ [(ns, EncodeInt [] (BeginCommitTS req))]\<rparr>\<rparr>,
        (case buckets (boltdb s) ns of
           None \<Rightarrow> new_DumpBinlogResp\<lparr>Errmsg := Error (NotFound ns)\<rparr>
         | Some b \<Rightarrow> new_DumpBinlogResp),
        (case buckets (boltdb s) ns of
           None \<Rightarrow> Some (Traced (NotFound ns))
         | Some b \<Rightarrow> None)) \<and>
     scan_fn dp (BeginCommitTS req) (LoadLower (window s)) key val
         \<lparr>ret = new_DumpBinlogResp, limit = Limit req\<rparr>
       = (\<lparr>ret = new_DumpBinlogResp, limit = Limit req\<rparr>, False, None)"
proof (intro impI conjI)
  assume l: "Limit req <=s 0"
  show "DumpBinlog dp ns s req =
       (s\<lparr>boltdb := (boltdb s)\<lparr>scanned := scanned (boltdb s) @ [(ns, EncodeInt [] (BeginCommitTS req))]\<rparr>\<rparr>,
        (case buckets (boltdb s) ns of
           None \<Rightarrow> new_DumpBinlogResp\<lparr>Errmsg := Error (NotFound ns)\<rparr>
         | Some b \<Rightarrow> new_DumpBinlogResp),
        (case buckets (boltdb s) ns of
           None \<Rightarrow> Some (Traced (NotFound ns))
         | Some b \<Rightarrow> None))"
  proof (cases "buckets (boltdb s) ns")
    case None
    then show ?thesis using DumpBinlog_None [of s ns dp req] by simp
  next
    case (Some b)
    have "Scan_records (scan_fn dp (BeginCommitTS req) (LoadLower (window s)))
            (Seek b (EncodeInt [] (BeginCommitTS req)))
            \<lparr>ret = new_DumpBinlogResp, limit = Limit req\<rparr>
          = (\<lparr>ret = new_DumpBinlogResp, limit = Limit req\<rparr>, None)"
      using l by (intro Scan_records_exhausted) simp
    then show ?thesis using Some DumpBinlog_scan_Some [OF Some, of dp req]
      by (simp add: DumpBinlog_def)
  qed
  show "scan_fn dp (BeginCommitTS req) (LoadLower (window s)) key val
         \<lparr>ret = new_DumpBinlogResp, limit = Limit req\<rparr>
       = (\<lparr>ret = new_DumpBinlogResp, limit = Limit req\<rparr>, False, None)"
    using l by (intro scan_fn_exhausted) simp
qed

text \<open>The same with \<open>Limit = 0\<close> at a store with entries at 10 and 11.\<close>

theorem DumpBinlog_limit_nonpositive_witness:
  "(0 :: int32) <=s 0 \<and>
   DumpBinlog Inr ''binlog_1''
       (server_with ''binlog_1'' (entries_at [(10, [1]), (11, [2])]) 13 15)
       \<lparr>BeginCommitTS = 10, Limit = 0\<rparr>
     = ((server_with ''binlog_1'' (entries_at [(10, [1]), (11, [2])]) 13 15)
          \<lparr>boltdb := \<lparr>buckets = [''binlog_1'' \<mapsto> entries_at [(10, [1]), (11, [2])]],
                      scanned = [(''binlog_1'', EncodeInt [] 10)]\<rparr>\<rparr>,
        \<lparr>EndCommitTS = 0, Payloads = [], Errmsg = ''''\<rparr>, None)"
proof -
  have h: "Limit \<lparr>BeginCommitTS = 10, Limit = 0\<rparr> <=s 0" by simp
  show ?thesis
    using DumpBinlog_limit_nonpositive [of "\<lparr>BeginCommitTS = 10, Limit = 0\<rparr>" Inr "''binlog_1''"
        "server_with ''binlog_1'' (entries_at [(10, [1]), (11, [2])]) 13 15"] h
    by (simp add: server_with_def new_DumpBinlogResp_def)
qed

subsection \<open>The limit, the order of the payloads, and the state of the server\<close>

lemma DumpBinlog_scan_limit:
  assumes "DumpBinlog_scan dp ns s req = (st', vars, serr)"
  shows "limit vars = Limit req - of_nat (length (Payloads (ret vars))) \<and>
         int (length (Payloads (ret vars))) \<le> max 0 (sint (Limit req))"
proof (cases "buckets (boltdb s) ns")
  case None
  then have "vars = \<lparr>ret = new_DumpBinlogResp, limit = Limit req\<rparr>"
    using assms by (simp add: DumpBinlog_scan_def Scan_def Let_def)
  then show ?thesis by (simp add: new_DumpBinlogResp_def)
next
  case (Some b)
  then have "Scan_records (scan_fn dp (BeginCommitTS req) (LoadLower (window s)))
            (Seek b (EncodeInt [] (BeginCommitTS req)))
            \<lparr>ret = new_DumpBinlogResp, limit = Limit req\<rparr> = (vars, serr)"
    using assms DumpBinlog_scan_Some [OF Some, of dp req] by (auto split: prod.splits)
  then obtain n where "scan_result dp (BeginCommitTS req) (LoadLower (window s))
       \<lparr>ret = new_DumpBinlogResp, limit = Limit req\<rparr>
       (take n (Seek b (EncodeInt [] (BeginCommitTS req)))) vars"
    using Scan_records_scan_fn by blast
  then show ?thesis by (simp add: scan_result_def Let_def new_DumpBinlogResp_def)
qed

lemma DumpBinlog_Payloads_scan:
  assumes "DumpBinlog dp ns s req = (s', resp, err)"
    and "DumpBinlog_scan dp ns s req = (st', vars, serr)"
  shows "Payloads resp = Payloads (ret vars)" "EndCommitTS resp = EndCommitTS (ret vars)"
    "err = Trace serr" "s' = s\<lparr>boltdb := st'\<rparr>"
    "Errmsg resp = (case serr of None \<Rightarrow> Errmsg (ret vars) | Some e \<Rightarrow> Error e)"
  using assms by (auto simp add: DumpBinlog_def split: option.splits)

text \<open>
  The callback does not stop the scan when the remaining limit reaches zero.  With one entry
  left to return, the callback appends the payload of the entry at 12, leaves the remaining
  limit at 0 and answers true, so the scan goes on: it is the scan of the record at 13 from
  that state.
\<close>

theorem DumpBinlog_limit_counterexample:
  "scan_fn Inr 10 20 (EncodeInt [] 12) [3]
       \<lparr>ret = \<lparr>EndCommitTS = 11, Payloads = [[2]], Errmsg = ''''\<rparr>, limit = 1\<rparr>
     = (\<lparr>ret = \<lparr>EndCommitTS = 12, Payloads = [[2], [3]], Errmsg = ''''\<rparr>, limit = 0\<rparr>,
        True, None) \<and>
   Scan_records (scan_fn Inr 10 20) [(EncodeInt [] 12, [3]), (EncodeInt [] 13, [4])]
       \<lparr>ret = \<lparr>EndCommitTS = 11, Payloads = [[2]], Errmsg = ''''\<rparr>, limit = 1\<rparr>
     = Scan_records (scan_fn Inr 10 20) [(EncodeInt [] 13, [4])]
         \<lparr>ret = \<lparr>EndCommitTS = 12, Payloads = [[2], [3]], Errmsg = ''''\<rparr>, limit = 0\<rparr>"
  by (simp add: scan_fn_def DecodeInt_EncodeInt word_sle_eq)

text \<open>
  C5, as the code has it.  With \<open>Limit > 0\<close>, the response holds at most \<open>Limit\<close>
  payloads.  The remaining limit that the scan leaves is the requested limit less one for
  each payload appended.  The callback answers true on every call that appends a payload,
  also on the one that brings the remaining limit to zero; it is on the next record it is
  handed, with the remaining limit zero or less, that it returns false and appends nothing.
\<close>

theorem DumpBinlog_limit:
  "(0 <s Limit req \<and> DumpBinlog dp ns s req = (s', resp, err) \<longrightarrow>
      length (Payloads resp) \<le> nat (sint (Limit req))) \<and>
   (DumpBinlog_scan dp ns s req = (st', vars, serr) \<longrightarrow>
      limit vars = Limit req - of_nat (length (Payloads (ret vars)))) \<and>
   (limit vars' <=s 0 \<longrightarrow> scan_fn dp start endTS key val vars' = (vars', False, None)) \<and>
   (0 <s limit vars2 \<and> DecodeInt key2 = Inr (rest2, cts2) \<and> cts2 \<noteq> start \<and>
    cts2 <s endTS \<and> dp val2 = Inr payload2 \<longrightarrow>
      scan_fn dp start endTS key2 val2 vars2 =
        (vars2\<lparr>ret := (ret vars2)\<lparr>Payloads := Payloads (ret vars2) @ [payload2],
                                   EndCommitTS := cts2\<rparr>,
               limit := limit vars2 - 1\<rparr>,
         True, None))"
proof (intro conjI impI)
  assume "0 <s limit vars2 \<and> DecodeInt key2 = Inr (rest2, cts2) \<and> cts2 \<noteq> start \<and>
    cts2 <s endTS \<and> dp val2 = Inr payload2"
  then show "scan_fn dp start endTS key2 val2 vars2 =
        (vars2\<lparr>ret := (ret vars2)\<lparr>Payloads := Payloads (ret vars2) @ [payload2],
                                   EndCommitTS := cts2\<rparr>,
               limit := limit vars2 - 1\<rparr>,
         True, None)"
    by (auto simp add: scan_fn_def word_sle_eq word_sless_alt)
next
  assume a: "0 <s Limit req \<and> DumpBinlog dp ns s req = (s', resp, err)"
  obtain st vars0 serr0 where sc: "DumpBinlog_scan dp ns s req = (st, vars0, serr0)"
    by (cases "DumpBinlog_scan dp ns s req")
  then have "int (length (Payloads (ret vars0))) \<le> max 0 (sint (Limit req))"
    using DumpBinlog_scan_limit by blast
  moreover have "Payloads resp = Payloads (ret vars0)"
    using a sc DumpBinlog_Payloads_scan(1) by blast
  moreover have "0 < sint (Limit req)" using a by (simp add: word_sless_alt)
  ultimately show "length (Payloads resp) \<le> nat (sint (Limit req))" by simp
next
  assume "DumpBinlog_scan dp ns s req = (st', vars, serr)"
  then show "limit vars = Limit req - of_nat (length (Payloads (ret vars)))"
    using DumpBinlog_scan_limit by blast
next
  assume "limit vars' <=s 0"
  then show "scan_fn dp start endTS key val vars' = (vars', False, None)"
    by (rule scan_fn_exhausted)
qed

text \<open>
  With \<open>Limit = 2\<close> and entries at 11, 12 and 13 below the lower bound, the payloads of 11
  and 12 are returned, the remaining limit is 0, the callback answers true at the entry at
  12 and stops at the entry at 13.
\<close>

theorem DumpBinlog_limit_witness:
  "(0 <s Limit \<lparr>BeginCommitTS = 10, Limit = 2\<rparr> \<and>
    DumpBinlog Inr ''binlog_1''
       (server_with ''binlog_1'' (entries_at [(10, [1]), (11, [2]), (12, [3]), (13, [4])]) 20 20)
       \<lparr>BeginCommitTS = 10, Limit = 2\<rparr>
     = ((server_with ''binlog_1'' (entries_at [(10, [1]), (11, [2]), (12, [3]), (13, [4])]) 20 20)
          \<lparr>boltdb := \<lparr>buckets = [''binlog_1'' \<mapsto> entries_at [(10, [1]), (11, [2]), (12, [3]), (13, [4])]],
                      scanned = [(''binlog_1'', EncodeInt [] 10)]\<rparr>\<rparr>,
        \<lparr>EndCommitTS = 12, Payloads = [[2], [3]], Errmsg = ''''\<rparr>, None)) \<and>
   length (Payloads \<lparr>EndCommitTS = 12, Payloads = [[2], [3]], Errmsg = ''''\<rparr>)
     \<le> nat (sint (Limit \<lparr>BeginCommitTS = 10, Limit = 2\<rparr>)) \<and>
   DumpBinlog_scan Inr ''binlog_1''
       (server_with ''binlog_1'' (entries_at [(10, [1]), (11, [2]), (12, [3]), (13, [4])]) 20 20)
       \<lparr>BeginCommitTS = 10, Limit = 2\<rparr>
     = (\<lparr>buckets = [''binlog_1'' \<mapsto> entries_at [(10, [1]), (11, [2]), (12, [3]), (13, [4])]],
                      scanned = [(''binlog_1'', EncodeInt [] 10)]\<rparr>,
        \<lparr>ret = \<lparr>EndCommitTS = 12, Payloads = [[2], [3]], Errmsg = ''''\<rparr>, limit = 0\<rparr>, None) \<and>
   limit \<lparr>ret = \<lparr>EndCommitTS = 12, Payloads = [[2], [3]], Errmsg = ''''\<rparr>, limit = 0\<rparr> <=s 0 \<and>
   scan_fn Inr 10 20 (EncodeInt [] 13) [4]
       \<lparr>ret = \<lparr>EndCommitTS = 12, Payloads = [[2], [3]], Errmsg = ''''\<rparr>, limit = 0\<rparr>
     = (\<lparr>ret = \<lparr>EndCommitTS = 12, Payloads = [[2], [3]], Errmsg = ''''\<rparr>, limit = 0\<rparr>, False, None) \<and>
   (0 <s limit \<lparr>ret = \<lparr>EndCommitTS = 11, Payloads = [[2]], Errmsg = ''''\<rparr>, limit = 1\<rparr> \<and>
    DecodeInt (EncodeInt [] 12) = Inr ([], 12) \<and> (12 :: int64) \<noteq> 10 \<and> (12 :: int64) <s 20 \<and>
    (Inr [3] :: error + bytes) = Inr [3]) \<and>
   scan_fn Inr 10 20 (EncodeInt [] 12) [3]
       \<lparr>ret = \<lparr>EndCommitTS = 11, Payloads = [[2]], Errmsg = ''''\<rparr>, limit = 1\<rparr>
     = (\<lparr>ret = \<lparr>EndCommitTS = 12, Payloads = [[2], [3]], Errmsg = ''''\<rparr>, limit = 0\<rparr>, True, None)"
proof -
  let ?b = "entries_at [(10, [1]), (11, [2]), (12, [3]), (13, [4])]"
  let ?s = "server_with ''binlog_1'' ?b 20 20"
  let ?req = "\<lparr>BeginCommitTS = 10, Limit = 2\<rparr>"
  let ?vars2 = "\<lparr>ret = \<lparr>EndCommitTS = 11, Payloads = [[2]], Errmsg = ''''\<rparr>, limit = 1\<rparr>"
  let ?st = "\<lparr>buckets = [''binlog_1'' \<mapsto> ?b], scanned = [(''binlog_1'', EncodeInt [] 10)]\<rparr>"
  let ?resp = "\<lparr>EndCommitTS = 12, Payloads = [[2], [3]], Errmsg = ''''\<rparr>"
  let ?vars = "\<lparr>ret = ?resp, limit = 0\<rparr>"
  have h0: "0 <s Limit ?req" by (simp add: word_sless_alt)
  have h1: "DumpBinlog Inr ''binlog_1'' ?s ?req = (?s\<lparr>boltdb := ?st\<rparr>, ?resp, None)"
    by (simp add: DumpBinlog_eval)
  have h2: "DumpBinlog_scan Inr ''binlog_1'' ?s ?req = (?st, ?vars, None)"
    by (simp add: DumpBinlog_eval)
  have h3: "limit ?vars <=s 0" by simp
  have h4: "0 <s limit ?vars2 \<and> DecodeInt (EncodeInt [] 12) = Inr ([], 12) \<and>
    (12 :: int64) \<noteq> 10 \<and> (12 :: int64) <s 20 \<and> (Inr [3] :: error + bytes) = Inr [3]"
    by (simp add: DecodeInt_EncodeInt word_sless_alt)
  note t = DumpBinlog_limit [of ?req Inr "''binlog_1''" ?s "?s\<lparr>boltdb := ?st\<rparr>" ?resp None
      ?st ?vars None ?vars 10 20 "EncodeInt [] 13" "[4]" ?vars2 "EncodeInt [] 12" "[]" 12
      "[3]" "[3]"]
  have c1: "length (Payloads ?resp) \<le> nat (sint (Limit ?req))"
    using t h0 h1 by blast
  have c3: "scan_fn Inr 10 20 (EncodeInt [] 13) [4] ?vars = (?vars, False, None)"
    using t h3 by blast
  have "scan_fn Inr 10 20 (EncodeInt [] 12) [3] ?vars2 =
        (?vars2\<lparr>ret := (ret ?vars2)\<lparr>Payloads := Payloads (ret ?vars2) @ [[3]],
                                     EndCommitTS := 12\<rparr>,
                limit := limit ?vars2 - 1\<rparr>,
         True, None)"
    using t h4 by blast
  then have c4: "scan_fn Inr 10 20 (EncodeInt [] 12) [3] ?vars2 = (?vars, True, None)"
    by simp
  from h0 h1 h2 h3 h4 c1 c3 c4 show ?thesis by blast
qed

text \<open>
  When the records of a namespace are entries written under the encoded commit timestamp,
  no two at the same timestamp, every scan presents them with strictly increasing commit
  timestamps.
\<close>

lemma EncodeInt_less_iff: "EncodeInt [] a < EncodeInt [] b \<longleftrightarrow> a <s b"
proof -
  have "EncodeInt [] a < EncodeInt [] b \<longleftrightarrow> \<not> EncodeInt [] b \<le> EncodeInt [] a" by auto
  also have "\<dots> \<longleftrightarrow> \<not> b <=s a" by (simp add: EncodeInt_le_iff)
  also have "\<dots> \<longleftrightarrow> a <s b" by (auto simp add: word_sle_eq word_sless_alt)
  finally show ?thesis .
qed

lemma Seek_entries_at_increasing:
  assumes "distinct (map fst es)"
  shows "sorted_wrt word_sless (map (\<lambda>(k, v). key_commitTS k) (Seek (entries_at es) sk))"
proof -
  let ?recs = "Seek (entries_at es) sk"
  have inj: "inj (EncodeInt [])"
  proof (rule injI)
    fix a b assume "EncodeInt [] a = EncodeInt [] b"
    then have "key_commitTS (EncodeInt [] a) = key_commitTS (EncodeInt [] b)" by simp
    then show "a = b" by (simp add: key_commitTS_EncodeInt)
  qed
  have keys: "map fst (entries_at es) = map (EncodeInt []) (map fst es)"
    by (induction es) (auto simp add: entries_at_def)
  have "inj_on (EncodeInt []) (set (map fst es))" using inj by (rule inj_on_subset) simp
  then have "distinct (map (EncodeInt []) (map fst es))"
    using assms distinct_map [of "EncodeInt []" "map fst es"] by blast
  then have "distinct (map fst (entries_at es))" by (simp only: keys)
  then have "distinct (map fst (filter (\<lambda>(k, v). sk \<le> k) (entries_at es)))"
    by (rule distinct_map_filter)
  then have d: "distinct (map fst ?recs)"
    unfolding Seek_def by (simp add: distinct_map)
  have s: "sorted (map fst ?recs)" unfolding Seek_def by simp
  from s d have st: "sorted_wrt (<) (map fst ?recs)"
    by (simp add: strict_sorted_iff)
  have mem: "\<forall>r \<in> set ?recs. \<exists>ts. fst r = EncodeInt [] ts"
    by (auto simp add: set_Seek entries_at_def)
  have "sorted_wrt (\<lambda>x y. fst x < fst y) ?recs" using st by (simp add: sorted_wrt_map)
  then have "sorted_wrt (\<lambda>x y. key_commitTS (fst x) <s key_commitTS (fst y)) ?recs"
  proof (rule sorted_wrt_mono_rel [rotated])
    fix x y assume "x \<in> set ?recs" "y \<in> set ?recs" "fst x < fst y"
    moreover from this mem obtain a b where "fst x = EncodeInt [] a" "fst y = EncodeInt [] b"
      by blast
    ultimately show "key_commitTS (fst x) <s key_commitTS (fst y)"
      by (simp add: key_commitTS_EncodeInt EncodeInt_less_iff)
  qed
  then show ?thesis by (simp add: sorted_wrt_map case_prod_unfold)
qed

text \<open>
  C6.  When the records that the scan presents have strictly increasing commit timestamps,
  the payloads of the response are those of entries with strictly increasing commit
  timestamps (the entries other than the one at \<open>BeginCommitTS\<close> among the first \<open>n\<close>
  records of the scan, in the order of the scan), and \<open>EndCommitTS\<close> is the commit timestamp
  of the last of them (0 when there is none).
\<close>

theorem DumpBinlog_ordered:
  "DumpBinlog dp ns s req = (s', resp, err) \<and> buckets (boltdb s) ns = Some b \<and>
   sorted_wrt word_sless (map (\<lambda>(k, v). key_commitTS k) (Seek b (EncodeInt [] (BeginCommitTS req))))
   \<longrightarrow>
     (\<exists>n. let es = after_start (BeginCommitTS req)
                  (take n (Seek b (EncodeInt [] (BeginCommitTS req)))) in
        Payloads resp = map (\<lambda>(k, v). val_payload dp v) es \<and>
        sorted_wrt word_sless (map (\<lambda>(k, v). key_commitTS k) es) \<and>
        EndCommitTS resp = (if es = [] then 0 else key_commitTS (fst (last es))))"
proof (intro impI)
  assume a: "DumpBinlog dp ns s req = (s', resp, err) \<and> buckets (boltdb s) ns = Some b \<and>
   sorted_wrt word_sless (map (\<lambda>(k, v). key_commitTS k) (Seek b (EncodeInt [] (BeginCommitTS req))))"
  then obtain n vars serr where
    r: "scan_result dp (BeginCommitTS req) (LoadLower (window s))
       \<lparr>ret = new_DumpBinlogResp, limit = Limit req\<rparr>
       (take n (Seek b (EncodeInt [] (BeginCommitTS req)))) vars"
    and p: "Payloads resp = Payloads (ret vars)" and e: "EndCommitTS resp = EndCommitTS (ret vars)"
    using DumpBinlog_Some [of dp ns s req s' resp err b] by blast
  let ?recs = "Seek b (EncodeInt [] (BeginCommitTS req))"
  let ?es = "after_start (BeginCommitTS req) (take n ?recs)"
  have "sorted_wrt (\<lambda>x y. (case x of (k, v) \<Rightarrow> key_commitTS k) <s (case y of (k, v) \<Rightarrow> key_commitTS k)) ?recs"
    using a by (simp add: sorted_wrt_map)
  then have "sorted_wrt (\<lambda>x y. (case x of (k, v) \<Rightarrow> key_commitTS k) <s (case y of (k, v) \<Rightarrow> key_commitTS k)) (take n ?recs)"
    by (rule sorted_wrt_take)
  then have "sorted_wrt (\<lambda>x y. (case x of (k, v) \<Rightarrow> key_commitTS k) <s (case y of (k, v) \<Rightarrow> key_commitTS k)) ?es"
    unfolding after_start_def by (rule sorted_wrt_filter)
  then have so: "sorted_wrt word_sless (map (\<lambda>(k, v). key_commitTS k) ?es)"
    by (simp add: sorted_wrt_map)
  have "Payloads (ret vars) = map (\<lambda>(k, v). val_payload dp v) ?es"
    and "EndCommitTS (ret vars) = (if ?es = [] then 0 else key_commitTS (fst (last ?es)))"
    using r by (simp_all add: scan_result_def Let_def new_DumpBinlogResp_def)
  with p e so show "\<exists>n. let es = after_start (BeginCommitTS req)
                  (take n (Seek b (EncodeInt [] (BeginCommitTS req)))) in
        Payloads resp = map (\<lambda>(k, v). val_payload dp v) es \<and>
        sorted_wrt word_sless (map (\<lambda>(k, v). key_commitTS k) es) \<and>
        EndCommitTS resp = (if es = [] then 0 else key_commitTS (fst (last es)))"
    unfolding Let_def by auto
qed

text \<open>
  The same at a store whose records were written in the order 12, 10, 11, 13: the scan
  presents them by key, and the payloads of 11 and 12 are returned in that order.
\<close>

theorem DumpBinlog_ordered_witness:
  "(DumpBinlog Inr ''binlog_1''
       (server_with ''binlog_1'' (entries_at [(12, [3]), (10, [1]), (11, [2]), (13, [4])]) 13 13)
       \<lparr>BeginCommitTS = 10, Limit = 10\<rparr>
     = ((server_with ''binlog_1'' (entries_at [(12, [3]), (10, [1]), (11, [2]), (13, [4])]) 13 13)
          \<lparr>boltdb := \<lparr>buckets = [''binlog_1'' \<mapsto> entries_at [(12, [3]), (10, [1]), (11, [2]), (13, [4])]],
                      scanned = [(''binlog_1'', EncodeInt [] 10)]\<rparr>\<rparr>,
        \<lparr>EndCommitTS = 12, Payloads = [[2], [3]], Errmsg = ''''\<rparr>, None) \<and>
    buckets (boltdb (server_with ''binlog_1'' (entries_at [(12, [3]), (10, [1]), (11, [2]), (13, [4])]) 13 13))
       ''binlog_1'' = Some (entries_at [(12, [3]), (10, [1]), (11, [2]), (13, [4])]) \<and>
    sorted_wrt word_sless (map (\<lambda>(k, v). key_commitTS k)
       (Seek (entries_at [(12, [3]), (10, [1]), (11, [2]), (13, [4])])
          (EncodeInt [] (BeginCommitTS \<lparr>BeginCommitTS = 10, Limit = 10\<rparr>))))) \<and>
   (\<exists>n. let es = after_start (BeginCommitTS \<lparr>BeginCommitTS = 10, Limit = 10\<rparr>)
                  (take n (Seek (entries_at [(12, [3]), (10, [1]), (11, [2]), (13, [4])])
                     (EncodeInt [] (BeginCommitTS \<lparr>BeginCommitTS = 10, Limit = 10\<rparr>)))) in
        Payloads \<lparr>EndCommitTS = 12, Payloads = [[2], [3]], Errmsg = ''''\<rparr>
          = map (\<lambda>(k, v). val_payload Inr v) es \<and>
        sorted_wrt word_sless (map (\<lambda>(k, v). key_commitTS k) es) \<and>
        EndCommitTS \<lparr>EndCommitTS = 12, Payloads = [[2], [3]], Errmsg = ''''\<rparr>
          = (if es = [] then 0 else key_commitTS (fst (last es))))"
proof -
  let ?b = "entries_at [(12, [3]), (10, [1]), (11, [2]), (13, [4])]"
  let ?s = "server_with ''binlog_1'' ?b 13 13"
  let ?req = "\<lparr>BeginCommitTS = 10, Limit = 10\<rparr>"
  let ?s' = "?s\<lparr>boltdb := \<lparr>buckets = [''binlog_1'' \<mapsto> ?b], scanned = [(''binlog_1'', EncodeInt [] 10)]\<rparr>\<rparr>"
  let ?resp = "\<lparr>EndCommitTS = 12, Payloads = [[2], [3]], Errmsg = ''''\<rparr>"
  have h1: "DumpBinlog Inr ''binlog_1'' ?s ?req = (?s', ?resp, None)"
    by (simp add: DumpBinlog_eval)
  have h2: "buckets (boltdb ?s) ''binlog_1'' = Some ?b"
    by (simp add: server_with_def)
  have h3: "sorted_wrt word_sless (map (\<lambda>(k, v). key_commitTS k)
       (Seek ?b (EncodeInt [] (BeginCommitTS ?req))))"
    by (simp add: DumpBinlog_eval)
  from DumpBinlog_ordered [of Inr "''binlog_1''" ?s ?req ?s' ?resp None ?b] h1 h2 h3
  show ?thesis by blast
qed

text \<open>
  C9.  \<open>DumpBinlog\<close> reads: the server it leaves is the one it was called on, but for the
  store having served one more scan, of the namespace and from the encoded
  \<open>BeginCommitTS\<close>.  The records of every namespace and the window are as before, for
  every request and whether or not the scan fails.
\<close>

theorem DumpBinlog_read_only:
  "fst (DumpBinlog dp ns s req) =
     s\<lparr>boltdb := (boltdb s)\<lparr>scanned := scanned (boltdb s) @ [(ns, EncodeInt [] (BeginCommitTS req))]\<rparr>\<rparr> \<and>
   buckets (boltdb (fst (DumpBinlog dp ns s req))) = buckets (boltdb s) \<and>
   window (fst (DumpBinlog dp ns s req)) = window s"
proof -
  have "fst (DumpBinlog dp ns s req) =
     s\<lparr>boltdb := (boltdb s)\<lparr>scanned := scanned (boltdb s) @ [(ns, EncodeInt [] (BeginCommitTS req))]\<rparr>\<rparr>"
  proof (cases "buckets (boltdb s) ns")
    case None
    then show ?thesis using DumpBinlog_None [of s ns dp req] by simp
  next
    case (Some b)
    then show ?thesis using DumpBinlog_scan_Some [OF Some, of dp req]
      by (auto simp add: DumpBinlog_def split: prod.splits)
  qed
  then show ?thesis by simp
qed

subsection \<open>Errors of the scan\<close>









subsection \<open>A payload that does not decode\<close>

lemma sint_limit_pos: "0 < sint (l :: int32) \<Longrightarrow> 0 <s l"
  by (simp add: word_sless_alt)

lemma Scan_records_pass:
  assumes "list_all (\<lambda>(k, v). DecodeInt k = Inr (drop 8 k, key_commitTS k) \<and>
             (key_commitTS k \<noteq> start \<longrightarrow> key_commitTS k <s e \<and> dp v = Inr (val_payload dp v))) pre"
    and "int (length (after_start start pre)) < sint (limit s)"
  shows "\<exists>s1. Scan_records (scan_fn dp start e) (pre @ rest) s
                = Scan_records (scan_fn dp start e) rest s1 \<and>
              scan_result dp start e s pre s1 \<and>
              sint (limit s1) = sint (limit s) - int (length (after_start start pre))"
  using assms
proof (induction pre arbitrary: s)
  case Nil
  show ?case using scan_result_Nil [of dp start e s]
    by (intro exI [of _ s]) (simp add: after_start_def)
next
  case (Cons kv pre)
  obtain k v where kv: "kv = (k, v)" by (cases kv)
  from Cons.prems(1) kv have d: "DecodeInt k = Inr (drop 8 k, key_commitTS k)"
    and h: "key_commitTS k \<noteq> start \<longrightarrow> key_commitTS k <s e \<and> dp v = Inr (val_payload dp v)"
    and tl: "list_all (\<lambda>(k, v). DecodeInt k = Inr (drop 8 k, key_commitTS k) \<and>
             (key_commitTS k \<noteq> start \<longrightarrow> key_commitTS k <s e \<and> dp v = Inr (val_payload dp v))) pre"
    by simp_all
  have "0 \<le> int (length (after_start start (kv # pre)))" by simp
  with Cons.prems(2) have pos: "0 < sint (limit s)" by linarith
  then have nl: "\<not> limit s <=s 0" by (simp add: word_sle_eq)
  show ?case
  proof (cases "key_commitTS k = start")
    case True
    then have f: "scan_fn dp start e k v s = (s, True, None)"
      using nl d by (simp add: scan_fn_def)
    have as: "after_start start (kv # pre) = after_start start pre"
      using True kv by (simp add: after_start_def)
    with Cons.prems(2) have "int (length (after_start start pre)) < sint (limit s)" by simp
    with tl obtain s1 where
      "Scan_records (scan_fn dp start e) (pre @ rest) s = Scan_records (scan_fn dp start e) rest s1"
      "scan_result dp start e s pre s1"
      "sint (limit s1) = sint (limit s) - int (length (after_start start pre))"
      using Cons.IH by blast
    moreover have "DecodeInt k = Inr (drop 8 k, start)" using d True by simp
    ultimately show ?thesis
      using f kv as scan_result_skip [where s = s and dp = dp and k = k and v = v] by auto
  next
    case False
    with h have lt: "key_commitTS k <s e" and p: "dp v = Inr (val_payload dp v)" by simp_all
    let ?s1 = "s\<lparr>ret := (ret s)\<lparr>Payloads := Payloads (ret s) @ [val_payload dp v],
                    EndCommitTS := key_commitTS k\<rparr>, limit := limit s - 1\<rparr>"
    have lt': "\<not> e <=s key_commitTS k" using lt by (simp add: word_sle_eq word_sless_alt)
    have f: "scan_fn dp start e k v s = (?s1, True, None)"
      using nl d False lt' p by (simp add: scan_fn_def)
    have as: "after_start start (kv # pre) = kv # after_start start pre"
      using False kv by (simp add: after_start_def)
    have sd: "sint (limit s - 1) = sint (limit s) - 1"
      using pos by (intro sint_dec sint_limit_pos)
    with Cons.prems(2) as have "int (length (after_start start pre)) < sint (limit ?s1)" by simp
    with tl obtain s1 where
      "Scan_records (scan_fn dp start e) (pre @ rest) ?s1 = Scan_records (scan_fn dp start e) rest s1"
      "scan_result dp start e ?s1 pre s1"
      "sint (limit s1) = sint (limit ?s1) - int (length (after_start start pre))"
      using Cons.IH by blast
    moreover have "0 <s limit s" using pos by (rule sint_limit_pos)
    ultimately show ?thesis
      using f kv as sd
        scan_result_append [where s = s and dp = dp and k = k and v = v and start = start
          and e = e and c = "key_commitTS k" and p = "val_payload dp v", OF d False lt p]
      by auto
  qed
qed

text \<open>
  With entries at 11, 12 and 13, where the payload of the entry at 12 does not decode,
  \<open>DumpBinlog\<close> returns a non-nil error next to the response: the call does not report
  success.
\<close>

theorem DumpBinlog_decode_failure_counterexample:
  "snd (snd (DumpBinlog decode_nonempty ''binlog_1''
        (server_with ''binlog_1'' (entries_at [(11, [2]), (12, []), (13, [4])]) 20 20)
        \<lparr>BeginCommitTS = 10, Limit = 10\<rparr>)) \<noteq> None"
  by (simp add: DumpBinlog_eval)

text \<open>
  C2, as the code has it.  When the scan presents the records \<open>pre\<close>, which the callback
  passes over (each decodes, and is the entry at \<open>BeginCommitTS\<close> or an entry below the
  lower bound whose payload decodes) without using up the limit, and then a record below the
  lower bound whose payload fails to decode with the error \<open>derr\<close>, \<open>DumpBinlog\<close> stops
  there, whatever records follow: the response holds the payloads collected from \<open>pre\<close>,
  \<open>EndCommitTS\<close> of the last of them, and the message of \<open>derr\<close> in \<open>Errmsg\<close>; and the
  error result is that same error, traced, not nil.
\<close>

theorem DumpBinlog_decode_failure:
  "buckets (boltdb s) ns = Some b \<and>
   Seek b (EncodeInt [] (BeginCommitTS req)) = pre @ (k, v) # post \<and>
   list_all (\<lambda>(k, v). DecodeInt k = Inr (drop 8 k, key_commitTS k) \<and>
       (key_commitTS k \<noteq> BeginCommitTS req \<longrightarrow>
          key_commitTS k <s LoadLower (window s) \<and> dp v = Inr (val_payload dp v))) pre \<and>
   int (length (after_start (BeginCommitTS req) pre)) < sint (Limit req) \<and>
   DecodeInt k = Inr (drop 8 k, key_commitTS k) \<and> key_commitTS k \<noteq> BeginCommitTS req \<and>
   key_commitTS k <s LoadLower (window s) \<and> dp v = Inl derr
   \<longrightarrow>
     snd (DumpBinlog dp ns s req) =
       (\<lparr>EndCommitTS = (if after_start (BeginCommitTS req) pre = [] then 0
                        else key_commitTS (fst (last (after_start (BeginCommitTS req) pre)))),
         Payloads = map (\<lambda>(k, v). val_payload dp v) (after_start (BeginCommitTS req) pre),
         Errmsg = Error derr\<rparr>,
        Some (Traced (Traced derr)))"
proof (intro impI)
  let ?start = "BeginCommitTS req" and ?e = "LoadLower (window s)"
  let ?s0 = "\<lparr>ret = new_DumpBinlogResp, limit = Limit req\<rparr>"
  assume a: "buckets (boltdb s) ns = Some b \<and>
   Seek b (EncodeInt [] ?start) = pre @ (k, v) # post \<and>
   list_all (\<lambda>(k, v). DecodeInt k = Inr (drop 8 k, key_commitTS k) \<and>
       (key_commitTS k \<noteq> ?start \<longrightarrow> key_commitTS k <s ?e \<and> dp v = Inr (val_payload dp v))) pre \<and>
   int (length (after_start ?start pre)) < sint (Limit req) \<and>
   DecodeInt k = Inr (drop 8 k, key_commitTS k) \<and> key_commitTS k \<noteq> ?start \<and>
   key_commitTS k <s ?e \<and> dp v = Inl derr"
  then have b: "buckets (boltdb s) ns = Some b"
    and sk: "Seek b (EncodeInt [] ?start) = pre @ (k, v) # post"
    and d: "DecodeInt k = Inr (drop 8 k, key_commitTS k)" and ne: "key_commitTS k \<noteq> ?start"
    and lt: "key_commitTS k <s ?e" and f: "dp v = Inl derr" by simp_all
  from a have "\<exists>s1. Scan_records (scan_fn dp ?start ?e) (pre @ (k, v) # post) ?s0
                = Scan_records (scan_fn dp ?start ?e) ((k, v) # post) s1 \<and>
              scan_result dp ?start ?e ?s0 pre s1 \<and>
              sint (limit s1) = sint (limit ?s0) - int (length (after_start ?start pre))"
    by (intro Scan_records_pass) simp_all
  then obtain s1 where
    r1: "Scan_records (scan_fn dp ?start ?e) (pre @ (k, v) # post) ?s0
                = Scan_records (scan_fn dp ?start ?e) ((k, v) # post) s1"
    and r2: "scan_result dp ?start ?e ?s0 pre s1"
    and r3: "sint (limit s1) = sint (limit ?s0) - int (length (after_start ?start pre))"
    by blast
  from r3 a have "0 < sint (limit s1)" by simp
  then have nl: "\<not> limit s1 <=s 0" by (simp add: word_sle_eq)
  have lt': "\<not> ?e <=s key_commitTS k" using lt by (simp add: word_sle_eq word_sless_alt)
  have "scan_fn dp ?start ?e k v s1 = (s1, False, Some (Traced derr))"
    using nl d ne lt' f by (simp add: scan_fn_def)
  then have "Scan_records (scan_fn dp ?start ?e) ((k, v) # post) s1 = (s1, Some (Traced derr))"
    by simp
  with r1 sk have sr: "Scan_records (scan_fn dp ?start ?e) (Seek b (EncodeInt [] ?start)) ?s0
      = (s1, Some (Traced derr))" by simp
  have "ret s1 = \<lparr>EndCommitTS = (if after_start ?start pre = [] then 0
                        else key_commitTS (fst (last (after_start ?start pre)))),
         Payloads = map (\<lambda>(k, v). val_payload dp v) (after_start ?start pre),
         Errmsg = ''''\<rparr>"
    using r2 by (cases "ret s1") (simp add: scan_result_def Let_def new_DumpBinlogResp_def)
  then show "snd (DumpBinlog dp ns s req) =
       (\<lparr>EndCommitTS = (if after_start ?start pre = [] then 0
                        else key_commitTS (fst (last (after_start ?start pre)))),
         Payloads = map (\<lambda>(k, v). val_payload dp v) (after_start ?start pre),
         Errmsg = Error derr\<rparr>,
        Some (Traced (Traced derr)))"
    using DumpBinlog_scan_Some [OF b, of dp req] sr by (simp add: DumpBinlog_def)
qed

text \<open>The same at the store with entries at 11, 12 and 13, the payload at 12 failing to decode.\<close>

theorem DumpBinlog_decode_failure_witness:
  "(buckets (boltdb (server_with ''binlog_1'' (entries_at [(11, [2]), (12, []), (13, [4])]) 20 20))
      ''binlog_1'' = Some (entries_at [(11, [2]), (12, []), (13, [4])]) \<and>
    Seek (entries_at [(11, [2]), (12, []), (13, [4])]) (EncodeInt [] 10)
      = [(EncodeInt [] 11, [2])] @ (EncodeInt [] 12, []) # [(EncodeInt [] 13, [4])] \<and>
    int (length (after_start 10 [(EncodeInt [] 11, [2])])) < sint (10 :: int32) \<and>
    DecodeInt (EncodeInt [] 12) = Inr (drop 8 (EncodeInt [] 12), key_commitTS (EncodeInt [] 12)) \<and>
    key_commitTS (EncodeInt [] 12) \<noteq> 10 \<and> key_commitTS (EncodeInt [] 12) <s 20 \<and>
    decode_nonempty [] = Inl (New ''empty value'')) \<and>
   snd (DumpBinlog decode_nonempty ''binlog_1''
        (server_with ''binlog_1'' (entries_at [(11, [2]), (12, []), (13, [4])]) 20 20)
        \<lparr>BeginCommitTS = 10, Limit = 10\<rparr>)
     = (\<lparr>EndCommitTS = 11, Payloads = [[2]], Errmsg = ''empty value''\<rparr>,
        Some (Traced (Traced (New ''empty value''))))"
proof -
  let ?b = "entries_at [(11, [2]), (12, []), (13, [4])]"
  let ?s = "server_with ''binlog_1'' ?b 20 20"
  let ?req = "\<lparr>BeginCommitTS = 10, Limit = 10\<rparr>"
  let ?pre = "[(EncodeInt [] 11, [2 :: byte])]"
  let ?k = "EncodeInt [] 12"
  have h1: "buckets (boltdb ?s) ''binlog_1'' = Some ?b" by (simp add: server_with_def)
  have h2: "Seek ?b (EncodeInt [] 10) = ?pre @ (?k, []) # [(EncodeInt [] 13, [4])]"
    by (simp add: DumpBinlog_eval)
  have h3: "list_all (\<lambda>(k, v). DecodeInt k = Inr (drop 8 k, key_commitTS k) \<and>
       (key_commitTS k \<noteq> BeginCommitTS ?req \<longrightarrow>
          key_commitTS k <s LoadLower (window ?s) \<and>
          decode_nonempty v = Inr (val_payload decode_nonempty v))) ?pre"
    by (simp add: DumpBinlog_eval val_payload_def length_EncodeInt)
  have h4: "int (length (after_start 10 ?pre)) < sint (10 :: int32)"
    by (simp add: after_start_def)
  have h5: "DecodeInt ?k = Inr (drop 8 ?k, key_commitTS ?k)"
    by (simp add: DecodeInt_EncodeInt key_commitTS_EncodeInt length_EncodeInt)
  have h6: "key_commitTS ?k \<noteq> 10" "key_commitTS ?k <s 20"
    by (simp_all add: key_commitTS_EncodeInt word_sless_alt)
  have h7: "decode_nonempty [] = Inl (New ''empty value'')" by (simp add: decode_nonempty_def)
  have "snd (DumpBinlog decode_nonempty ''binlog_1'' ?s ?req) =
       (\<lparr>EndCommitTS = (if after_start (BeginCommitTS ?req) ?pre = [] then 0
                        else key_commitTS (fst (last (after_start (BeginCommitTS ?req) ?pre)))),
         Payloads = map (\<lambda>(k, v). val_payload decode_nonempty v) (after_start (BeginCommitTS ?req) ?pre),
         Errmsg = Error (New ''empty value'')\<rparr>,
        Some (Traced (Traced (New ''empty value''))))"
    using DumpBinlog_decode_failure [of ?s "''binlog_1''" ?b ?req ?pre ?k "[]"
        "[(EncodeInt [] 13, [4])]" decode_nonempty "New ''empty value''"]
      h1 h2 h3 h4 h5 h6 h7
    by (simp add: LoadLower_def server_with_def)
  then have "snd (DumpBinlog decode_nonempty ''binlog_1'' ?s ?req)
     = (\<lparr>EndCommitTS = 11, Payloads = [[2]], Errmsg = ''empty value''\<rparr>,
        Some (Traced (Traced (New ''empty value''))))"
    by (simp add: after_start_def key_commitTS_EncodeInt val_payload_def decode_nonempty_def)
  with h1 h2 h4 h5 h6 h7 show ?thesis by blast
qed

section \<open>Closing the server\<close>

lemma close_inv_run:
  "close_inv c \<Longrightarrow> run es c = Some c' \<Longrightarrow> close_inv c'"
proof (induction es c rule: run.induct)
  case (1 c)
  then show ?case by simp
next
  case (2 es s)
  then show ?case by simp
next
  case (3 es st rest s)
  from "3.prems"(2) obtain s' where e: "exec_stmt st s = Some s'" and r: "run es (rest, s') = Some c'"
    by (auto split: option.splits)
  have "close_inv (rest, s')"
    using "3.prems"(1) e by (cases st) (auto simp add: close_inv_def split: if_splits)
  with "3.IH" e r show ?case by simp
next
  case (4 g es pc s)
  from "4.prems"(2) have g: "g \<in> set (running s)"
    and r: "run es (pc, goroutine_returns g s) = Some c'"
    by (auto split: if_splits)
  from g have "length (running s) > 0" by (cases "running s") auto
  then have "close_inv (pc, goroutine_returns g s)"
    using "4.prems"(1) g by (auto simp add: close_inv_def goroutine_returns_def length_remove1)
  with "4.IH" g r show ?case by simp
qed

lemma close_inv_Start:
  "close_inv (Close, Start listening (new_Lifecycle has_metrics))"
  by (simp add: close_inv_def Close_def Start_def new_Lifecycle_def StartCollect_def
      StartPublish_def StartMetrics_def Let_def)

text \<open>
  C7.  In every execution of \<open>Close\<close> on a started server, next to goroutines that return
  at any moment: the statements still to run are a suffix of \<open>Close\<close>, so they are taken
  in the order stop serving, cancel, wait, close the store; once the first is taken the
  server serves no request, once the second is taken the cancellation is raised, once
  \<open>Wait\<close> has returned the counter is zero and no goroutine is running; the store is
  closed exactly when all four are taken, and whenever it is closed the server has stopped
  serving, the cancellation is raised and every goroutine has returned.
\<close>

theorem Close_store_last:
  "run es (Close, Start listening (new_Lifecycle has_metrics)) = Some (pc, s) \<longrightarrow>
     (\<exists>n. pc = drop n Close) \<and>
     (length pc < 4 \<longrightarrow> \<not> serving s) \<and>
     (length pc < 3 \<longrightarrow> cancelled s) \<and>
     (length pc < 2 \<longrightarrow> wg s = 0 \<and> running s = []) \<and>
     (\<not> store_open s \<longleftrightarrow> pc = []) \<and>
     (\<not> store_open s \<longrightarrow> \<not> serving s \<and> cancelled s \<and> wg s = 0 \<and> running s = [])"
proof
  assume "run es (Close, Start listening (new_Lifecycle has_metrics)) = Some (pc, s)"
  then have i: "close_inv (pc, s)" using close_inv_Start close_inv_run by blast
  have d: "drop 0 Close = Close" "drop 1 Close = [Cancel, Wait, BoltdbClose]"
    "drop 2 Close = [Wait, BoltdbClose]" "drop 3 Close = [BoltdbClose]" "drop 4 Close = []"
    by (simp_all add: Close_def)
  from i have "pc = drop 0 Close \<or> pc = drop 1 Close \<or> pc = drop 2 Close \<or> pc = drop 3 Close \<or> pc = drop 4 Close"
    unfolding d by (auto simp add: close_inv_def Close_def)
  then have "\<exists>n. pc = drop n Close" by blast
  moreover from i have "(length pc < 4 \<longrightarrow> \<not> serving s) \<and>
     (length pc < 3 \<longrightarrow> cancelled s) \<and>
     (length pc < 2 \<longrightarrow> wg s = 0 \<and> running s = []) \<and>
     (\<not> store_open s \<longleftrightarrow> pc = []) \<and>
     (\<not> store_open s \<longrightarrow> \<not> serving s \<and> cancelled s \<and> wg s = 0 \<and> running s = [])"
    by (auto simp add: close_inv_def)
  ultimately show "(\<exists>n. pc = drop n Close) \<and>
     (length pc < 4 \<longrightarrow> \<not> serving s) \<and>
     (length pc < 3 \<longrightarrow> cancelled s) \<and>
     (length pc < 2 \<longrightarrow> wg s = 0 \<and> running s = []) \<and>
     (\<not> store_open s \<longleftrightarrow> pc = []) \<and>
     (\<not> store_open s \<longrightarrow> \<not> serving s \<and> cancelled s \<and> wg s = 0 \<and> running s = [])"
    by blast
qed

text \<open>
  An execution with the collector and the publisher: both return before \<open>Wait\<close> does, and
  the store is closed at the end; the execution in which \<open>Wait\<close> would return while the
  collector still runs does not exist.
\<close>

theorem Close_store_last_witness:
  "run [Step, Return Publisher, Step, Return Collector, Step, Step]
       (Close, Start True (new_Lifecycle False))
     = Some ([], \<lparr>serving = False, cancelled = True, wg = 0, running = [],
                 store_open = False, metrics_set = False\<rparr>) \<and>
   (\<exists>n. [] = drop n Close) \<and>
   \<not> store_open \<lparr>serving = False, cancelled = True, wg = 0, running = [],
                 store_open = False, metrics_set = False\<rparr> \<and>
   run [Step, Return Publisher, Step, Step] (Close, Start True (new_Lifecycle False)) = None"
proof -
  let ?s = "\<lparr>serving = False, cancelled = True, wg = 0, running = [],
                 store_open = False, metrics_set = False\<rparr>"
  have h: "run [Step, Return Publisher, Step, Return Collector, Step, Step]
       (Close, Start True (new_Lifecycle False)) = Some ([], ?s)"
    by (simp add: Close_def Start_def new_Lifecycle_def StartCollect_def
      StartPublish_def StartMetrics_def Let_def goroutine_returns_def)
  have b: "run [Step, Return Publisher, Step, Step] (Close, Start True (new_Lifecycle False)) = None"
    by (simp add: Close_def Start_def new_Lifecycle_def StartCollect_def
      StartPublish_def StartMetrics_def Let_def goroutine_returns_def)
  have "(\<exists>n. [] = drop n Close) \<and> (\<not> store_open ?s \<longleftrightarrow> ([] :: close_stmt list) = [])"
    using Close_store_last [of "[Step, Return Publisher, Step, Return Collector, Step, Step]"
        True False "[]" ?s] h
    by blast
  with h b show ?thesis by simp
qed

section \<open>The three namespaces\<close>

text \<open>
  C8.  For every configuration, and whatever text \<open>%d\<close> produces, the three namespaces
  are pairwise distinct; two configurations with the same \<open>ClusterID\<close> give the same
  namespaces.
\<close>

theorem namespaces_distinct:
  "distinct [WindowNamespace (NewServer_namespaces fmt_d cfg),
             BinlogNamespace (NewServer_namespaces fmt_d cfg),
             SavePointNamespace (NewServer_namespaces fmt_d cfg)] \<and>
   (ClusterID cfg = ClusterID cfg' \<longrightarrow>
      NewServer_namespaces fmt_d cfg = NewServer_namespaces fmt_d cfg')"
  by (simp add: NewServer_namespaces_def)

text \<open>Two configurations with \<open>ClusterID = 12\<close> that differ in every other field.\<close>

theorem namespaces_distinct_witness:
  "ClusterID \<lparr>ClusterID = 12 :: nat, DataDir = ''data'', ListenAddr = ''a'', MetricsAddr = '''',
       MetricsInterval = 0\<rparr>
     = ClusterID \<lparr>ClusterID = 12 :: nat, DataDir = ''other'', ListenAddr = ''b'', MetricsAddr = ''m'',
       MetricsInterval = 15\<rparr> \<and>
   NewServer_namespaces decimal \<lparr>ClusterID = 12 :: nat, DataDir = ''data'', ListenAddr = ''a'',
       MetricsAddr = '''', MetricsInterval = 0\<rparr>
     = NewServer_namespaces decimal \<lparr>ClusterID = 12 :: nat, DataDir = ''other'', ListenAddr = ''b'',
       MetricsAddr = ''m'', MetricsInterval = 15\<rparr> \<and>
   NewServer_namespaces decimal \<lparr>ClusterID = 12 :: nat, DataDir = ''data'', ListenAddr = ''a'',
       MetricsAddr = '''', MetricsInterval = 0\<rparr>
     = \<lparr>WindowNamespace = ''meta_12'', BinlogNamespace = ''binlog_12'',
        SavePointNamespace = ''savepoint_12''\<rparr>"
proof -
  let ?c = "\<lparr>ClusterID = 12 :: nat, DataDir = ''data'', ListenAddr = ''a'', MetricsAddr = '''',
       MetricsInterval = 0\<rparr>"
  let ?c' = "\<lparr>ClusterID = 12 :: nat, DataDir = ''other'', ListenAddr = ''b'', MetricsAddr = ''m'',
       MetricsInterval = 15\<rparr>"
  have h: "ClusterID ?c = ClusterID ?c'" by simp
  have "NewServer_namespaces decimal ?c = NewServer_namespaces decimal ?c'"
    using namespaces_distinct [of decimal ?c ?c'] h by blast
  moreover have "NewServer_namespaces decimal ?c
     = \<lparr>WindowNamespace = ''meta_12'', BinlogNamespace = ''binlog_12'',
        SavePointNamespace = ''savepoint_12''\<rparr>"
    by (simp add: NewServer_namespaces_def)
  ultimately show ?thesis using h by blast
qed

end
